theory Spec2Isabelle
  imports Main "HOL-Library.Sublist"
begin

section \<open>The analysis controller of \<open>ui/analyse/src/ctrl.ts\<close>\<close>

text \<open>
  The controller class \<open>AnalyseController\<close> coordinates a move tree, a cursor into it,
  a background engine and an evaluation cache. Its methods are embedded as functions on
  an explicit controller state. Calls into collaborators (board, sound, engine, study,
  retrospection, practice, explorer, evaluation cache, console, dialogs) are recorded, in
  call order, in an event log that is part of the state. A JavaScript \<open>TypeError\<close>
  raised by dereferencing \<open>undefined\<close> is the error value of a sum type.
\<close>

subsection \<open>Data\<close>

text \<open>A path is the sequence of per-ply move identifiers from the root; the root path is empty.\<close>

type_synonym path = "string list"

text \<open>
  \<open>Tree.ClientEval\<close>: the fields that \<open>ctrl.ts\<close> reads or writes. \<open>cp\<close> and \<open>mate\<close>
  are optional numbers, \<open>cloud\<close> and \<open>retried\<close> optional flags (absent reads as false).
\<close>

record client_eval =
  ev_fen :: string
  depth :: int
  maxDepth :: int
  cp :: "int option"
  mate :: "int option"
  cloud :: bool
  retried :: bool

text \<open>
  \<open>Tree.Node\<close> without its children. Optional fields are options, \<open>None\<close> being
  \<open>undefined\<close>.
\<close>

record node_data =
  node_id :: string
  ply :: int
  fen :: string
  uci :: "string option"
  san :: "string option"
  check :: bool
  dests :: "string option"
  drops :: "string option"
  threefold :: bool
  ceval :: "client_eval option"
  threat :: "client_eval option"
  comments :: "string list"
  shapes :: "string list option"

datatype node = Node (data: node_data) (children: "node list")

datatype error = TypeError

text \<open>Sequencing of fallible steps: an exception aborts what follows.\<close>

definition and_then :: "error + 'a \<Rightarrow> ('a \<Rightarrow> error + 'b) \<Rightarrow> error + 'b" where
  "and_then r f = (case r of Inl e \<Rightarrow> Inl e | Inr x \<Rightarrow> f x)"

subsection \<open>The move tree (package \<open>tree\<close>)\<close>

text \<open>
  The package \<open>tree\<close> (\<open>build\<close>, \<open>path\<close>, \<open>ops\<close>) is imported by \<open>ctrl.ts\<close> and is not part
  of the sources at hand. Each definition of this subsection is modelled from section 4.1
  of the specification and its glossary, and says so.
\<close>

text \<open>Modelled from the spec: the child of a node with a given move identifier (the first
  one, children being ordered), which the path lookup of \<open>tree\<close> needs.\<close>

definition childById :: "string \<Rightarrow> node \<Rightarrow> node option" where
  "childById i n = find (\<lambda>c. node_id (data c) = i) (children n)"

text \<open>Modelled from the spec: \<open>tree.nodeAtPath\<close>, missing with the package \<open>tree\<close>. A node is
  addressed by its path from the root; a path that leaves the tree resolves to no node.\<close>

primrec nodeAtPath :: "path \<Rightarrow> node \<Rightarrow> node option" where
  "nodeAtPath [] n = Some n"
| "nodeAtPath (i # p) n =
     (case childById i n of None \<Rightarrow> None | Some c \<Rightarrow> nodeAtPath p c)"

text \<open>Modelled from the spec: the nodes from a node down to the node at a path, for
  \<open>tree.getNodeList\<close>.\<close>

primrec nodeListFrom :: "path \<Rightarrow> node \<Rightarrow> node list option" where
  "nodeListFrom [] n = Some [n]"
| "nodeListFrom (i # p) n =
     (case childById i n of None \<Rightarrow> None
      | Some c \<Rightarrow> (case nodeListFrom p c of None \<Rightarrow> None | Some ns \<Rightarrow> Some (n # ns)))"

text \<open>Modelled from the spec: \<open>tree.getNodeList\<close>, missing with the package \<open>tree\<close>: the
  nodes from the root to the node at the path; an empty result when the path does not
  resolve.\<close>

definition getNodeList :: "path \<Rightarrow> node \<Rightarrow> node list" where
  "getNodeList p root = (case nodeListFrom p root of None \<Rightarrow> [] | Some ns \<Rightarrow> ns)"

text \<open>Modelled from the spec: \<open>treeOps.last\<close>, missing with the package \<open>tree\<close>: the last
  element of a node list, \<open>undefined\<close> on the empty list.\<close>

definition last_node :: "node list \<Rightarrow> node option" where
  "last_node ns = (if ns = [] then None else Some (last ns))"

text \<open>Modelled from the spec: a change of the first element that satisfies a test, by which
  \<open>updateAt\<close> reaches the child that the path lookup finds.\<close>

fun map_first :: "('a \<Rightarrow> bool) \<Rightarrow> ('a \<Rightarrow> 'a) \<Rightarrow> 'a list \<Rightarrow> 'a list" where
  "map_first P f [] = []"
| "map_first P f (x # xs) = (if P x then f x # xs else x # map_first P f xs)"

text \<open>Modelled from the spec: \<open>tree.updateAt\<close>, missing with the package \<open>tree\<close>: the mutator
  is applied to the node at the path if there is one.\<close>

primrec updateAt :: "path \<Rightarrow> (node \<Rightarrow> node) \<Rightarrow> node \<Rightarrow> node" where
  "updateAt [] f n = f n"
| "updateAt (i # p) f n =
     Node (data n) (map_first (\<lambda>c. node_id (data c) = i) (updateAt p f) (children n))"

text \<open>Modelled from the spec: a node appended to the children of its parent, for
  \<open>tree.addNode\<close>.\<close>

definition push_child :: "node \<Rightarrow> node \<Rightarrow> node" where
  "push_child c n = Node (data n) (children n @ [c])"

text \<open>Modelled from the spec: \<open>tree.addNode\<close>, missing with the package \<open>tree\<close>: the new
  path and the new tree or, when the parent path does not resolve, the sentinel \<open>None\<close>
  and the tree unchanged.\<close>

definition tree_addNode :: "node \<Rightarrow> path \<Rightarrow> node \<Rightarrow> path option \<times> node" where
  "tree_addNode nd p root =
     (case nodeAtPath p root of
        None \<Rightarrow> (None, root)
      | Some parent \<Rightarrow> (Some (p @ [node_id (data nd)]), updateAt p (push_child nd) root))"

text \<open>Modelled from the spec: the removal of the children with a given identifier, for
  \<open>tree.deleteNodeAt\<close>.\<close>

definition removeChild :: "string \<Rightarrow> node \<Rightarrow> node" where
  "removeChild i n = Node (data n) (filter (\<lambda>c. node_id (data c) \<noteq> i) (children n))"

text \<open>Modelled from the spec: \<open>tree.deleteNodeAt\<close>, missing with the package \<open>tree\<close>: the
  subtree at the path is removed from the children of its parent; the root is permanent.\<close>

definition deleteNodeAt :: "path \<Rightarrow> node \<Rightarrow> node" where
  "deleteNodeAt p root = (if p = [] then root else updateAt (butlast p) (removeChild (last p)) root)"

text \<open>Modelled from the spec: the result of \<open>treeOps.countChildrenAndComments\<close>, missing
  with the package \<open>tree\<close>.\<close>

record counts =
  nodes :: nat
  n_comments :: nat

text \<open>Modelled from the spec: the number of nodes of a subtree, the node itself included.\<close>

fun count_nodes :: "node \<Rightarrow> nat" where
  "count_nodes (Node d cs) = 1 + sum_list (map count_nodes cs)"

text \<open>Modelled from the spec: the number of comments of a subtree.\<close>

fun count_comments :: "node \<Rightarrow> nat" where
  "count_comments (Node d cs) = length (comments d) + sum_list (map count_comments cs)"

text \<open>Modelled from the spec: \<open>treeOps.countChildrenAndComments\<close>, missing with the
  package \<open>tree\<close>.\<close>

definition countChildrenAndComments :: "node \<Rightarrow> counts" where
  "countChildrenAndComments n = \<lparr>nodes = count_nodes n, n_comments = count_comments n\<rparr>"

text \<open>Modelled from the spec: \<open>treePath.root\<close>, missing with the package \<open>tree\<close>: the
  empty path.\<close>

definition path_root :: path where
  "path_root = []"

text \<open>Modelled from the spec: \<open>treePath.init\<close>, missing with the package \<open>tree\<close>: the
  parent path.\<close>

definition path_init :: "path \<Rightarrow> path" where
  "path_init p = butlast p"

text \<open>Modelled from the spec: \<open>treePath.contains\<close>, missing with the package \<open>tree\<close>:
  whether the first path lies at or below the second one.\<close>

definition path_contains :: "path \<Rightarrow> path \<Rightarrow> bool" where
  "path_contains p1 p2 = prefix p2 p1"

subsection \<open>The engine controller and the evaluation ordering (package \<open>ceval\<close>)\<close>

text \<open>
  Modelled from the spec: \<open>isEvalBetter\<close> is imported from the package \<open>ceval\<close>, which is
  not part of the sources at hand. Section 3 of the specification: an evaluation is better
  than another one if it has a higher search depth, or the same depth with a cloud source
  outranking a locally computed one. The second argument is the stored record of the
  node, which may be absent; an incoming evaluation is then better, as the first
  evaluation of a node must be stored.
\<close>

definition isEvalBetter :: "client_eval \<Rightarrow> client_eval option \<Rightarrow> bool" where
  "isEvalBetter a b =
     (case b of
        None \<Rightarrow> True
      | Some b' \<Rightarrow> depth a > depth b' \<or> (depth a = depth b' \<and> cloud a \<and> \<not> cloud b'))"

text \<open>
  \<open>CevalOpts\<close>, the configuration that \<open>instanciateCeval\<close> builds, and what \<open>ctrl.ts\<close>
  reads of a \<open>CevalController\<close>. The factory \<open>cevalCtrl\<close> of the package \<open>ceval\<close> is a
  parameter of the functions that call it.
\<close>

record ceval_opts =
  opt_possible :: bool
  opt_failsafe :: bool
  opt_practice :: bool

record ceval_controller =
  enabled :: bool
  possible :: bool
  pnaclSupported :: bool
  effectiveMaxDepth :: int
  multiPv :: int

subsection \<open>Calls into collaborators\<close>

text \<open>
  One constructor for each call that leaves the controller. A call to a throttled
  function (\<open>startCeval\<close>, \<open>getDests\<close>, \<open>onChange\<close>, \<open>updateHref\<close>, the three sounds) is
  recorded as the call; when the throttle runs its callback depends on wall-clock time.
\<close>

datatype event =
    OnChange
  | GetDests
  | ChessgroundSet string
  | SetAutoShapes
  | ChessgroundSetShapes
  | StudySetPath path
  | SoundMove
  | SoundCapture
  | SoundCheck
  | CevalStop
  | StartCeval
  | ExplorerSetNode
  | UpdateHref
  | PromotionCancel
  | RetroOnJump
  | PracticeOnJump
  | StudyOnJump
  | MusicJump
  | AutoplayStop
  | SelectSquareNull
  | PracticePreUserJump path path
  | PracticePostUserJump path path
  | ConsoleLog string
  | Redraw
  | PlayPremove
  | Confirm
  | StudyDeleteNode path
  | RetroOnCeval
  | PracticeOnCeval
  | StudyPracticeOnCeval
  | EvalCacheOnCeval
  | CevalDestroy
  | CevalInstantiate ceval_opts
  | CevalStart path "node list" bool bool
  | EvalCacheFetch path int

subsection \<open>The controller state\<close>

text \<open>
  The fields of \<open>AnalyseController\<close> that the embedded methods read or write. A
  collaborator that may be absent (\<open>chessground\<close>, \<open>study\<close>, \<open>retro\<close>, \<open>practice\<close>,
  \<open>studyPractice\<close>, \<open>music\<close>) is a flag telling whether it is attached. \<open>cevalC\<close> is the
  field \<open>ceval\<close>, set by the constructor before any method below runs. The denormalised
  cursor fields \<open>node\<close> and \<open>nodeList\<close> are references into the tree that \<open>setPath\<close>
  obtains from \<open>(tree, path)\<close>; they are read through the tree (\<open>cur_node\<close>,
  \<open>cur_nodeList\<close>), so that a mutation of a node in place is seen through them, as it is
  in the source.
\<close>

record ctrl =
  tree :: node
  path :: path
  threatMode :: bool
  justPlayed :: "string option"
  justDropped :: "string option"
  justCaptured :: "string option"
  autoScrollRequested :: bool
  chessground :: bool
  study :: bool
  retro :: bool
  practice :: bool
  studyPractice :: bool
  music :: bool
  opts_study :: bool
  opts_practice :: bool
  data_evalPut :: bool
  embed :: bool
  synthetic :: bool
  playable :: bool
  cevalC :: ceval_controller
  events :: "event list"

definition emit :: "event list \<Rightarrow> ctrl \<Rightarrow> ctrl" where
  "emit es s = s\<lparr>events := events s @ es\<rparr>"

definition cur_nodeList :: "ctrl \<Rightarrow> node list" where
  "cur_nodeList s = getNodeList (path s) (tree s)"

definition cur_node :: "ctrl \<Rightarrow> node option" where
  "cur_node s = last_node (cur_nodeList s)"

definition setPath :: "path \<Rightarrow> ctrl \<Rightarrow> ctrl" where
  "setPath p s = s\<lparr>path := p\<rparr>"

subsection \<open>Rendering and navigation\<close>

text \<open>
  \<open>showGround\<close>: the throttled \<open>onChange\<close> is called, \<open>getDests\<close> when the node has no
  destinations yet, and an attached board receives the configuration of \<open>makeCgOpts\<close>
  (recorded by its \<open>fen\<close>), the automatic shapes and the shapes of the node. Reading
  \<open>this.node.dests\<close> on an undefined node raises.
\<close>

definition showGround_events :: "ctrl \<Rightarrow> node \<Rightarrow> event list" where
  "showGround_events s n =
     [OnChange]
     @ (if dests (data n) = None then [GetDests] else [])
     @ (if chessground s
        then [ChessgroundSet (fen (data n)), SetAutoShapes]
             @ (if shapes (data n) \<noteq> None then [ChessgroundSetShapes] else [])
        else [])"

definition showGround :: "ctrl \<Rightarrow> error + ctrl" where
  "showGround s =
     (case cur_node s of
        None \<Rightarrow> Inl TypeError
      | Some n \<Rightarrow> Inr (emit (showGround_events s n) s))"

text \<open>
  The sound of a jump, given \<open>this.justPlayed\<close>. \<open>!this.node.uci\<close> holds of an absent
  and of an empty string; \<open>uci.indexOf(this.justPlayed || '') !== 0\<close> says that \<open>uci\<close>
  does not start with the move just played, an absent one counting as the empty string;
  \<open>this.node.san!.indexOf\<close> raises when \<open>san\<close> is absent. The regular expression of the
  check sound, applied to an absent \<open>san\<close>, finds nothing.
\<close>

definition move_sound :: "string option \<Rightarrow> node \<Rightarrow> error + event list" where
  "move_sound played n =
     (case uci (data n) of
        None \<Rightarrow> Inr [SoundMove]
      | Some u \<Rightarrow>
          if u = [] then Inr [SoundMove]
          else if \<not> prefix (case played of None \<Rightarrow> [] | Some j \<Rightarrow> j) u
          then (case san (data n) of
                  None \<Rightarrow> Inl TypeError
                | Some sn \<Rightarrow> Inr (if CHR ''x'' \<in> set sn then [SoundCapture] else [SoundMove]))
          else Inr [])"

definition check_sound :: "node \<Rightarrow> event list" where
  "check_sound n =
     (case san (data n) of
        None \<Rightarrow> []
      | Some sn \<Rightarrow> if CHR ''+'' \<in> set sn \<or> CHR ''#'' \<in> set sn then [SoundCheck] else [])"

text \<open>The first block of \<open>jump\<close> that is guarded by \<open>pathChanged\<close>.\<close>

definition jump_changed :: "path \<Rightarrow> node \<Rightarrow> ctrl \<Rightarrow> error + ctrl" where
  "jump_changed p n s =
     (let s1 = (if study s then emit [StudySetPath p] s else s)
      in and_then (move_sound (justPlayed s1) n) (\<lambda>snd_events.
           Inr (emit [CevalStop, StartCeval]
                  ((emit (snd_events @ check_sound n) s1)\<lparr>threatMode := False\<rparr>))))"

text \<open>The second guarded block: the notifications of the sub-features.\<close>

definition jump_notify :: "ctrl \<Rightarrow> ctrl" where
  "jump_notify s =
     emit ((if retro s then [RetroOnJump] else [])
           @ (if practice s then [PracticeOnJump] else [])
           @ (if study s then [StudyOnJump] else [])) s"

definition jump :: "path \<Rightarrow> ctrl \<Rightarrow> error + ctrl" where
  "jump p s =
     (let pathChanged = (p \<noteq> path s)
      in and_then (showGround (setPath p s)) (\<lambda>s1.
           case cur_node s1 of
             None \<Rightarrow> Inl TypeError
           | Some n \<Rightarrow>
               and_then (if pathChanged then jump_changed p n s1 else Inr s1) (\<lambda>s2.
                 let s3 = emit [ExplorerSetNode, UpdateHref]
                            (s2\<lparr>justPlayed := None, justDropped := None, justCaptured := None\<rparr>);
                     s4 = emit [PromotionCancel] (s3\<lparr>autoScrollRequested := True\<rparr>);
                     s5 = (if pathChanged then jump_notify s4 else s4)
                 in Inr (if music s5 then emit [MusicJump] s5 else s5))))"

definition userJump :: "path \<Rightarrow> ctrl \<Rightarrow> error + ctrl" where
  "userJump p s =
     (let s1 = emit ([AutoplayStop] @ (if chessground s then [SelectSquareNull] else [])) s
      in if practice s1
         then (let prev = path s1
               in and_then (jump p (emit [PracticePreUserJump prev p] s1)) (\<lambda>s2.
                    Inr (emit [PracticePostUserJump prev (path s2)] s2)))
         else jump p s1)"

subsection \<open>Adding and deleting nodes\<close>

text \<open>
  \<open>addNode\<close>: \<open>!newPath\<close> holds of the sentinel and of the empty path.
  \<open>this.chessground.playPremove()\<close> is not guarded and raises without a board.
\<close>

definition addNode :: "node \<Rightarrow> path \<Rightarrow> ctrl \<Rightarrow> error + ctrl" where
  "addNode nd p s =
     (case tree_addNode nd p (tree s) of (newPath, t) \<Rightarrow>
        let s1 = s\<lparr>tree := t\<rparr>
        in (case newPath of
              None \<Rightarrow> Inr (emit [ConsoleLog ''Cannot addNode'', Redraw] s1)
            | Some np \<Rightarrow>
                if np = [] then Inr (emit [ConsoleLog ''Cannot addNode'', Redraw] s1)
                else and_then (jump np s1) (\<lambda>s2.
                       if chessground s2 then Inr (emit [Redraw, PlayPremove] s2)
                       else Inl TypeError)))"

text \<open>
  \<open>deleteNode\<close>: \<open>answer\<close> is what the user answers to the dialog of \<open>confirm\<close>, which is
  shown only for a subtree of ten or more nodes or with a comment.
\<close>

definition needs_confirm :: "node \<Rightarrow> bool" where
  "needs_confirm n =
     (let count = countChildrenAndComments n in nodes count \<ge> 10 \<or> n_comments count > 0)"

definition deleteNode :: "path \<Rightarrow> bool \<Rightarrow> ctrl \<Rightarrow> error + ctrl" where
  "deleteNode p answer s =
     (case nodeAtPath p (tree s) of
        None \<Rightarrow> Inr s
      | Some n \<Rightarrow>
          if needs_confirm n \<and> \<not> answer then Inr (emit [Confirm] s)
          else
            let s1 = (if needs_confirm n then emit [Confirm] s else s);
                s2 = s1\<lparr>tree := deleteNodeAt p (tree s1)\<rparr>
            in and_then (if path_contains (path s2) p then userJump (path_init p) s2
                         else jump (path s2) s2) (\<lambda>s3.
                 Inr (if study s3 then emit [StudyDeleteNode p] s3 else s3)))"

subsection \<open>Applying an evaluation\<close>

text \<open>
  The mutator that \<open>onNewCeval\<close> hands to \<open>tree.updateAt\<close>, on the node alone:
  the position check, then the threat record or the client record.
\<close>

definition store_eval :: "client_eval \<Rightarrow> bool \<Rightarrow> node \<Rightarrow> node" where
  "store_eval ev tm n =
     (let d = data n in
      if fen d \<noteq> ev_fen ev \<and> \<not> tm then n
      else if tm then
        (if (case threat d of
               None \<Rightarrow> True
             | Some t \<Rightarrow> isEvalBetter ev (Some t) \<or> maxDepth t < maxDepth ev)
         then Node (d\<lparr>threat := Some ev\<rparr>) (children n)
         else n)
      else if isEvalBetter ev (ceval d) then Node (d\<lparr>ceval := Some ev\<rparr>) (children n)
      else (case ceval d of
              None \<Rightarrow> n
            | Some c \<Rightarrow>
                if maxDepth ev > maxDepth c
                then Node (d\<lparr>ceval := Some (c\<lparr>maxDepth := maxDepth ev\<rparr>)\<rparr>) (children n)
                else n))"

text \<open>What the mutator calls when the path is the cursor's.\<close>

definition ceval_events :: "client_eval \<Rightarrow> bool \<Rightarrow> ctrl \<Rightarrow> event list" where
  "ceval_events ev tm s =
     (if chessground s then [SetAutoShapes] else [])
     @ (if \<not> tm
        then (if retro s then [RetroOnCeval] else [])
             @ (if practice s then [PracticeOnCeval] else [])
             @ (if studyPractice s then [StudyPracticeOnCeval] else [])
             @ [EvalCacheOnCeval]
             @ (if cloud ev \<and> depth ev \<ge> effectiveMaxDepth (cevalC s) then [CevalStop] else [])
        else [])
     @ [Redraw]"

definition onNewCeval :: "client_eval \<Rightarrow> path \<Rightarrow> bool \<Rightarrow> ctrl \<Rightarrow> ctrl" where
  "onNewCeval ev p tm s =
     (case nodeAtPath p (tree s) of
        None \<Rightarrow> s
      | Some n \<Rightarrow>
          if fen (data n) \<noteq> ev_fen ev \<and> \<not> tm then s
          else
            let s1 = s\<lparr>tree := updateAt p (store_eval ev tm) (tree s)\<rparr>
            in if p = path s1 then emit (ceval_events ev tm s1) s1 else s1)"

subsection \<open>The engine: instantiation, crash, start\<close>

text \<open>
  \<open>instanciateCeval\<close>: the engine of the state is destroyed, the configuration built and
  the new engine made by \<open>cevalCtrl\<close>.
\<close>

definition instanciateCeval ::
  "(ceval_opts \<Rightarrow> ceval_controller) \<Rightarrow> bool \<Rightarrow> ctrl \<Rightarrow> ctrl" where
  "instanciateCeval cevalCtrl failsafe s =
     (let cfg = \<lparr>opt_possible = (\<not> embed s \<and> (synthetic s \<or> \<not> playable s)),
                 opt_failsafe = failsafe,
                 opt_practice = (opts_study s \<and> opts_practice s)\<rparr>
      in (emit [CevalDestroy, CevalInstantiate cfg] s)\<lparr>cevalC := cevalCtrl cfg\<rparr>)"

text \<open>\<open>ceval.retried = true\<close> on the record that the current node holds.\<close>

definition mark_retried :: "node \<Rightarrow> node" where
  "mark_retried n =
     Node ((data n)\<lparr>ceval := map_option (\<lambda>c. c\<lparr>retried := True\<rparr>) (ceval (data n))\<rparr>)
          (children n)"

definition onCrash :: "(ceval_opts \<Rightarrow> ceval_controller) \<Rightarrow> ctrl \<Rightarrow> error + ctrl" where
  "onCrash cevalCtrl s =
     (case cur_node s of
        None \<Rightarrow> Inl TypeError
      | Some n \<Rightarrow>
          let s1 = emit [ConsoleLog ''Local eval failed after depth''] s;
              fallback = emit [StartCeval]
                           (instanciateCeval cevalCtrl True
                              (emit [ConsoleLog ''Fallback to ASMJS now''] s1))
          in if pnaclSupported (cevalC s1)
             then (case ceval (data n) of
                     None \<Rightarrow> Inr fallback
                   | Some c \<Rightarrow>
                       if depth c \<ge> 20 \<and> \<not> retried c
                       then Inr ((emit [ConsoleLog ''Remain on native stockfish for now''] s1)
                                   \<lparr>tree := updateAt (path s1) mark_retried (tree s1)\<rparr>)
                       else Inr fallback)
             else Inr s1)"

datatype game_over = NotOver | Checkmate | Draw

text \<open>\<open>gameOver\<close>: \<open>n.drops\<close> is falsy when absent or empty.\<close>

definition gameOver :: "node \<Rightarrow> game_over" where
  "gameOver n =
     (if dests (data n) \<noteq> Some [] \<or> (case drops (data n) of None \<Rightarrow> False | Some dr \<Rightarrow> dr \<noteq> [])
      then NotOver
      else if check (data n) then Checkmate
      else Draw)"

definition canUseCeval :: "ctrl \<Rightarrow> error + bool" where
  "canUseCeval s =
     (case cur_node s of
        None \<Rightarrow> Inl TypeError
      | Some n \<Rightarrow> Inr (gameOver n = NotOver \<and> \<not> threefold (data n)))"

text \<open>The callback that the throttle of \<open>startCeval\<close> runs.\<close>

definition startCeval :: "ctrl \<Rightarrow> error + ctrl" where
  "startCeval s =
     (if enabled (cevalC s)
      then and_then (canUseCeval s) (\<lambda>can.
             if can
             then Inr (emit [CevalStart (path s) (cur_nodeList s) (threatMode s) False,
                             EvalCacheFetch (path s) (multiPv (cevalC s))] s)
             else Inr (emit [CevalStop] s))
      else Inr s)"

subsection \<open>Eligibility for the evaluation cache\<close>

definition canEvalGet :: "ctrl \<Rightarrow> node \<Rightarrow> bool" where
  "canEvalGet s n = (opts_study s \<or> ply (data n) < 10)"

text \<open>
  \<open>canPut\<close>: \<open>&&\<close> and \<open>||\<close> evaluate from the left and stop early. \<open>node.ceval!.mate\<close>
  raises on a node without client evaluation; \<open>!mate\<close> holds of an absent \<open>mate\<close> and of
  0; \<open>Math.abs\<close> of an absent \<open>cp\<close> is not a number and compares false.
\<close>

definition canPut :: "ctrl \<Rightarrow> node \<Rightarrow> error + bool" where
  "canPut s n =
     (if \<not> data_evalPut s then Inr False
      else if \<not> canEvalGet s n then Inr False
      else if opts_study s then Inr True
      else if \<not> ply (data n) < 10 then Inr False
      else (case ceval (data n) of
              None \<Rightarrow> Inl TypeError
            | Some c \<Rightarrow>
                if (case mate c of None \<Rightarrow> False | Some m \<Rightarrow> m \<noteq> 0) then Inr False
                else (case cp c of None \<Rightarrow> Inr False | Some v \<Rightarrow> Inr (\<bar>v\<bar> < 99))))"

subsection \<open>Sequences of evaluations, and the failsafe configuration\<close>

text \<open>A sequence of evaluations delivered for one path, none of them in threat mode.\<close>

fun apply_evals :: "client_eval list \<Rightarrow> path \<Rightarrow> ctrl \<Rightarrow> ctrl" where
  "apply_evals [] p s = s"
| "apply_evals (e # es) p s = apply_evals es p (onNewCeval e p False s)"

text \<open>The configuration that \<open>instanciateCeval(true)\<close> builds.\<close>

definition failsafe_opts :: "ctrl \<Rightarrow> ceval_opts" where
  "failsafe_opts s =
     \<lparr>opt_possible = (\<not> embed s \<and> (synthetic s \<or> \<not> playable s)),
      opt_failsafe = True,
      opt_practice = (opts_study s \<and> opts_practice s)\<rparr>"

text \<open>The calls that a later state has made since an earlier one.\<close>

definition new_events :: "ctrl \<Rightarrow> ctrl \<Rightarrow> event list" where
  "new_events s s' = drop (length (events s)) (events s')"

text \<open>
  The calls that \<open>jump\<close> guards by \<open>pathChanged\<close>: the sounds, the stop and the restart
  of the engine, and the notifications of study, retrospection and practice.
\<close>

fun jump_cycle :: "event \<Rightarrow> bool" where
  "jump_cycle SoundMove = True"
| "jump_cycle SoundCapture = True"
| "jump_cycle SoundCheck = True"
| "jump_cycle CevalStop = True"
| "jump_cycle StartCeval = True"
| "jump_cycle (StudySetPath p) = True"
| "jump_cycle RetroOnJump = True"
| "jump_cycle PracticeOnJump = True"
| "jump_cycle StudyOnJump = True"
| "jump_cycle e = False"

text \<open>
  A tree in which every node that has a move in \<open>uci\<close> has its notation in \<open>san\<close>, as the
  source assumes where it writes \<open>this.node.san!\<close>.
\<close>

definition san_ok :: "node_data \<Rightarrow> bool" where
  "san_ok d = (case uci d of None \<Rightarrow> True | Some u \<Rightarrow> u = [] \<or> san d \<noteq> None)"

fun moves_ok :: "node \<Rightarrow> bool" where
  "moves_ok (Node d cs) = (san_ok d \<and> (\<forall>c \<in> set cs. moves_ok c))"

subsection \<open>Example trees and states\<close>

text \<open>
  A small game: the root with the two replies \<open>e4\<close> and \<open>d4\<close>, and \<open>e5\<close> after \<open>e4\<close>.
  The node \<open>e4\<close> holds a client evaluation of depth 22. The cursor of \<open>ex_ctrl\<close> is on
  \<open>e4\<close>.
\<close>

definition mk_data :: "string \<Rightarrow> int \<Rightarrow> string \<Rightarrow> node_data" where
  "mk_data i pl f =
     \<lparr>node_id = i, ply = pl, fen = f, uci = None, san = None, check = False, dests = None,
      drops = None, threefold = False, ceval = None, threat = None, comments = [],
      shapes = None\<rparr>"

definition ex_eval :: "int \<Rightarrow> client_eval" where
  "ex_eval d =
     \<lparr>ev_fen = ''fen-e4'', depth = d, maxDepth = 99, cp = Some 30, mate = None,
      cloud = False, retried = False\<rparr>"

definition ex_e5 :: node where
  "ex_e5 = Node ((mk_data ''e5'' 2 ''fen-e4-e5'')\<lparr>uci := Some ''e7e5'', san := Some ''e5''\<rparr>) []"

definition ex_e4 :: node where
  "ex_e4 =
     Node ((mk_data ''e4'' 1 ''fen-e4'')
             \<lparr>uci := Some ''e2e4'', san := Some ''e4'', ceval := Some (ex_eval 22)\<rparr>)
          [ex_e5]"

definition ex_d4 :: node where
  "ex_d4 = Node ((mk_data ''d4'' 1 ''fen-d4'')\<lparr>uci := Some ''d2d4'', san := Some ''d4''\<rparr>) []"

text \<open>A copy of the node \<open>e4\<close>, evaluation included, at ply 10.\<close>

definition ex_deep :: node where
  "ex_deep = Node ((data ex_e4)\<lparr>ply := 10\<rparr>) []"

definition ex_root :: node where
  "ex_root = Node (mk_data [] 0 ''fen-start'') [ex_e4, ex_d4]"

text \<open>A checkmated position: no destinations, no drops, in check.\<close>

definition ex_mated :: node where
  "ex_mated =
     Node ((mk_data ''f7'' 7 ''fen-mate'')
             \<lparr>uci := Some ''h5f7'', san := Some ''Qxf7#'', check := True, dests := Some []\<rparr>)
          []"

definition ex_cevalCtrl :: "ceval_opts \<Rightarrow> ceval_controller" where
  "ex_cevalCtrl cfg =
     \<lparr>enabled = True, possible = opt_possible cfg, pnaclSupported = \<not> opt_failsafe cfg,
      effectiveMaxDepth = 99, multiPv = 1\<rparr>"

definition ex_ctrl :: ctrl where
  "ex_ctrl =
     \<lparr>tree = ex_root, path = [''e4''], threatMode = False, justPlayed = None,
      justDropped = None, justCaptured = None, autoScrollRequested = False,
      chessground = True, study = False, retro = False, practice = False,
      studyPractice = False, music = False, opts_study = False, opts_practice = False,
      data_evalPut = True, embed = False, synthetic = True, playable = False,
      cevalC = ex_cevalCtrl \<lparr>opt_possible = True, opt_failsafe = False, opt_practice = False\<rparr>,
      events = []\<rparr>"

text \<open>The same state with an engine that does not support PNaCl.\<close>

definition ex_nopnacl :: ctrl where
  "ex_nopnacl = ex_ctrl\<lparr>cevalC := (cevalC ex_ctrl)\<lparr>pnaclSupported := False\<rparr>\<rparr>"

text \<open>An evaluation of depth 25 of the position after \<open>e4 e5\<close>, and an evaluation of
  \<open>e4\<close> of depth 20 only, with a higher \<open>maxDepth\<close>.\<close>

definition ex_stale :: client_eval where
  "ex_stale = (ex_eval 25)\<lparr>ev_fen := ''fen-e4-e5''\<rparr>"

definition ex_shallow :: client_eval where
  "ex_shallow = (ex_eval 20)\<lparr>maxDepth := 120\<rparr>"

text \<open>The state after a jump to \<open>e4 e5\<close> from \<open>ex_ctrl\<close> when \<open>g1\<close> was just played.\<close>

definition ex_jumped :: ctrl where
  "ex_jumped =
     ex_ctrl\<lparr>path := [''e4'', ''e5''], autoScrollRequested := True,
             events := [OnChange, GetDests, ChessgroundSet ''fen-e4-e5'', SetAutoShapes,
                        SoundMove, CevalStop, StartCeval, ExplorerSetNode, UpdateHref,
                        PromotionCancel]\<rparr>"

text \<open>The same game with a comment on \<open>e5\<close>, so that deleting \<open>e4\<close> asks for confirmation.\<close>

definition ex_e4c :: node where
  "ex_e4c = Node (data ex_e4) [Node ((data ex_e5)\<lparr>comments := [''sharp'']\<rparr>) []]"

definition ex_ctrl_c :: ctrl where
  "ex_ctrl_c = ex_ctrl\<lparr>tree := Node (data ex_root) [ex_e4c, ex_d4]\<rparr>"

section \<open>Properties\<close>

subsection \<open>The cursor node\<close>

lemma nodeListFrom_None: "nodeListFrom p t = None \<Longrightarrow> nodeAtPath p t = None"
  by (induction p arbitrary: t) (auto split: option.splits)

lemma nodeListFrom_last:
  "nodeListFrom p t = Some ns \<Longrightarrow> ns \<noteq> [] \<and> nodeAtPath p t = Some (last ns)"
  by (induction p arbitrary: t ns) (auto split: option.splits)

text \<open>The node of the cursor is the node that the tree has at the cursor's path.\<close>

lemma cur_node_eq: "cur_node s = nodeAtPath (path s) (tree s)"
proof (cases "nodeListFrom (path s) (tree s)")
  case None
  then show ?thesis
    using nodeListFrom_None [OF None]
    by (simp add: cur_node_def cur_nodeList_def getNodeList_def last_node_def)
next
  case (Some ns)
  then show ?thesis
    using nodeListFrom_last [OF Some]
    by (simp add: cur_node_def cur_nodeList_def getNodeList_def last_node_def)
qed

lemmas ex_defs =
  mk_data_def ex_eval_def ex_e5_def ex_e4_def ex_d4_def ex_root_def ex_mated_def
  ex_cevalCtrl_def ex_ctrl_def

lemma cur_node_ex_ctrl: "cur_node ex_ctrl = Some ex_e4"
  by (simp add: cur_node_eq childById_def ex_defs)

subsection \<open>Terminal positions and the gate of the engine\<close>

text \<open>
  Claim C9. \<open>gameOver(n)\<close> is not \<open>false\<close> exactly when \<open>n.dests\<close> is the empty string
  and \<open>n\<close> has no drops (\<open>drops\<close> absent or empty); it is then \<open>'checkmate'\<close> when
  \<open>n.check\<close> is set and \<open>'draw\<close>' otherwise. On a cursor that resolves to the node \<open>m\<close>,
  \<open>canUseCeval()\<close> is true exactly when \<open>gameOver\<close> of \<open>m\<close> is \<open>false\<close> and \<open>m\<close> is not
  flagged threefold.
\<close>

theorem gameOver_terminal:
  "(gameOver n \<noteq> NotOver \<longleftrightarrow>
      dests (data n) = Some [] \<and> (drops (data n) = None \<or> drops (data n) = Some []))
   \<and> (gameOver n \<noteq> NotOver \<longrightarrow> gameOver n = (if check (data n) then Checkmate else Draw))
   \<and> (cur_node s = Some m \<longrightarrow>
        canUseCeval s = Inr (gameOver m = NotOver \<and> \<not> threefold (data m)))"
  by (auto simp: gameOver_def canUseCeval_def split: option.splits)

theorem gameOver_terminal_witness:
  "gameOver ex_mated \<noteq> NotOver \<and> gameOver ex_mated = Checkmate
   \<and> cur_node ex_ctrl = Some ex_e4 \<and> canUseCeval ex_ctrl = Inr True"
  using gameOver_terminal [of ex_mated ex_ctrl ex_e4] cur_node_ex_ctrl
  by (simp add: gameOver_def ex_defs)

subsection \<open>Eligibility for the evaluation cache\<close>

text \<open>
  Claim C6. Outside a study, \<open>canPut(n)\<close> is false whenever \<open>n.ply >= 10\<close>, whatever the
  evaluation of the node is. \<open>canPut(n)\<close> is true only when the flag \<open>evalPut\<close> of the
  server is set, \<open>canEvalGet(n)\<close> holds and, outside a study, the client evaluation of
  the node is not a mate (\<open>mate\<close> absent or 0) and its centipawn score is of absolute
  value below 99.
\<close>

theorem canPut_boundary:
  "(\<not> opts_study s \<and> ply (data n) \<ge> 10 \<longrightarrow> canPut s n = Inr False)
   \<and> (canPut s n = Inr True \<longrightarrow>
        data_evalPut s \<and> canEvalGet s n
        \<and> (\<not> opts_study s \<longrightarrow>
             (\<exists>c v. ceval (data n) = Some c \<and> (mate c = None \<or> mate c = Some 0)
                    \<and> cp c = Some v \<and> \<bar>v\<bar> < 99)))"
  by (auto simp: canPut_def canEvalGet_def split: option.splits if_splits)

theorem canPut_boundary_witness:
  "\<not> opts_study ex_ctrl \<and> ply (data ex_deep) \<ge> 10 \<and> canPut ex_ctrl ex_deep = Inr False
   \<and> canPut ex_ctrl ex_e4 = Inr True
   \<and> data_evalPut ex_ctrl \<and> canEvalGet ex_ctrl ex_e4
   \<and> (\<exists>c v. ceval (data ex_e4) = Some c \<and> (mate c = None \<or> mate c = Some 0)
             \<and> cp c = Some v \<and> \<bar>v\<bar> < 99)"
  using canPut_boundary [of ex_ctrl ex_deep] canPut_boundary [of ex_ctrl ex_e4]
  by (simp add: canPut_def canEvalGet_def ex_deep_def ex_defs)

subsection \<open>The start of the engine\<close>

text \<open>
  Claim C8, as amended. When the callback of \<open>startCeval\<close> runs on a cursor that resolves
  to the node \<open>n\<close>: if the engine is enabled and \<open>n\<close> is neither a terminal position nor
  flagged threefold, a work item for the current path, node list and threat mode is
  started and the evaluation cache is asked for the same path; if the engine is enabled
  and \<open>n\<close> is terminal or flagged threefold, the engine is stopped; if the engine is not
  enabled, nothing is called at all.
\<close>

theorem startCeval_dispatch:
  "cur_node s = Some n \<Longrightarrow>
   startCeval s =
     Inr (emit (if enabled (cevalC s)
                then (if gameOver n = NotOver \<and> \<not> threefold (data n)
                      then [CevalStart (path s) (cur_nodeList s) (threatMode s) False,
                            EvalCacheFetch (path s) (multiPv (cevalC s))]
                      else [CevalStop])
                else []) s)"
  by (auto simp: startCeval_def canUseCeval_def and_then_def emit_def)

theorem startCeval_dispatch_witness:
  "cur_node ex_ctrl = Some ex_e4
   \<and> startCeval ex_ctrl =
       Inr (emit [CevalStart [''e4''] [ex_root, ex_e4] False False,
                  EvalCacheFetch [''e4''] 1] ex_ctrl)"
  using startCeval_dispatch [OF cur_node_ex_ctrl] cur_node_ex_ctrl
  by (simp add: gameOver_def cur_nodeList_def getNodeList_def childById_def ex_defs)

text \<open>
  The claim as stated has the engine stopped in every other case. With the engine
  disabled, on the example state, the callback returns the state as it was: no call
  to \<open>ceval.stop\<close> is made.
\<close>

theorem startCeval_disabled_counterexample:
  "\<not> enabled (cevalC (ex_ctrl\<lparr>cevalC := (cevalC ex_ctrl)\<lparr>enabled := False\<rparr>\<rparr>))
   \<and> startCeval (ex_ctrl\<lparr>cevalC := (cevalC ex_ctrl)\<lparr>enabled := False\<rparr>\<rparr>)
       = Inr (ex_ctrl\<lparr>cevalC := (cevalC ex_ctrl)\<lparr>enabled := False\<rparr>\<rparr>)
   \<and> CevalStop \<notin> set (events (ex_ctrl\<lparr>cevalC := (cevalC ex_ctrl)\<lparr>enabled := False\<rparr>\<rparr>))"
  by (simp add: startCeval_def ex_ctrl_def)

subsection \<open>Crashes of the engine\<close>

text \<open>
  Claim C10. When the engine controller reports \<open>pnaclSupported\<close> as false, the crash
  callback recovers nothing: if it returns, the state is the one before but for the
  logged diagnostic, so that no node is marked as retried, the engine is the same, no
  failsafe engine is instantiated and \<open>startCeval\<close> is not called; it raises only when
  the cursor resolves to no node.
\<close>

theorem onCrash_without_pnacl:
  "\<not> pnaclSupported (cevalC s) \<Longrightarrow>
     (case onCrash cevalCtrl s of
        Inl e \<Rightarrow> cur_node s = None
      | Inr s' \<Rightarrow> s' = emit [ConsoleLog ''Local eval failed after depth''] s
                 \<and> tree s' = tree s \<and> cevalC s' = cevalC s
                 \<and> events s' = events s @ [ConsoleLog ''Local eval failed after depth''])"
  by (auto simp: onCrash_def emit_def Let_def split: option.splits sum.splits)

theorem onCrash_without_pnacl_witness:
  "\<not> pnaclSupported (cevalC (ex_ctrl\<lparr>cevalC := (cevalC ex_ctrl)\<lparr>pnaclSupported := False\<rparr>\<rparr>))
   \<and> onCrash ex_cevalCtrl (ex_ctrl\<lparr>cevalC := (cevalC ex_ctrl)\<lparr>pnaclSupported := False\<rparr>\<rparr>)
       = Inr (emit [ConsoleLog ''Local eval failed after depth'']
                (ex_ctrl\<lparr>cevalC := (cevalC ex_ctrl)\<lparr>pnaclSupported := False\<rparr>\<rparr>))"
  using onCrash_without_pnacl
          [of "ex_ctrl\<lparr>cevalC := (cevalC ex_ctrl)\<lparr>pnaclSupported := False\<rparr>\<rparr>" ex_cevalCtrl]
        cur_node_ex_ctrl
  by (auto simp: cur_node_eq split: sum.splits)

subsection \<open>Lookup after an update in place\<close>

lemma find_map_first:
  "(\<And>x. P x \<Longrightarrow> P (f x)) \<Longrightarrow> find P (map_first P f xs) = map_option f (find P xs)"
  by (induction xs) auto

lemma updateAt_node_id:
  "(\<And>m. node_id (data (f m)) = node_id (data m)) \<Longrightarrow>
   node_id (data (updateAt p f t)) = node_id (data t)"
  by (cases p) auto

lemma nodeAtPath_updateAt:
  "(\<And>m. node_id (data (f m)) = node_id (data m)) \<Longrightarrow>
   nodeAtPath p (updateAt p f t) = map_option f (nodeAtPath p t)"
proof (induction p arbitrary: t)
  case Nil
  show ?case by simp
next
  case (Cons i p)
  have keep: "\<And>x. node_id (data x) = i \<Longrightarrow> node_id (data (updateAt p f x)) = i"
    using updateAt_node_id [of f p] Cons.prems by simp
  show ?case
  proof (cases "find (\<lambda>c. node_id (data c) = i) (children t)")
    case None
    then show ?thesis
      using find_map_first [of "\<lambda>c. node_id (data c) = i" "updateAt p f" "children t"] keep
      by (simp add: childById_def)
  next
    case (Some c)
    then show ?thesis
      using find_map_first [of "\<lambda>c. node_id (data c) = i" "updateAt p f" "children t"] keep
            Cons.IH [OF Cons.prems, of c]
      by (simp add: childById_def)
  qed
qed

lemma mark_retried_node_id: "node_id (data (mark_retried m)) = node_id (data m)"
  by (simp add: mark_retried_def)

subsection \<open>Applying an evaluation\<close>

lemma store_eval_node_id: "node_id (data (store_eval ev tm m)) = node_id (data m)"
  by (simp add: store_eval_def Let_def split: option.splits)

lemma onNewCeval_node:
  assumes "nodeAtPath p (tree s) = Some n"
  shows "nodeAtPath p (tree (onNewCeval ev p tm s)) = Some (store_eval ev tm n)"
proof (cases "fen (data n) \<noteq> ev_fen ev \<and> \<not> tm")
  case True
  then show ?thesis using assms by (simp add: onNewCeval_def store_eval_def)
next
  case False
  have "tree (onNewCeval ev p tm s) = updateAt p (store_eval ev tm) (tree s)"
    using assms False by (auto simp: onNewCeval_def emit_def Let_def)
  then show ?thesis
    using nodeAtPath_updateAt [of "store_eval ev tm" p "tree s", OF store_eval_node_id] assms
    by simp
qed

text \<open>
  Claim C2. When \<open>threatMode\<close> is false and the node at \<open>p\<close> exists with a \<open>fen\<close> other
  than \<open>ev.fen\<close>, \<open>onNewCeval(ev, p, threatMode)\<close> returns the state as it was: the stored
  evaluations are unchanged and nothing is redrawn or notified. When \<open>threatMode\<close> is true
  and the node at \<open>p\<close> exists, whatever its \<open>fen\<close>, the threat record of the node becomes
  \<open>ev\<close> if no threat is stored, or \<open>ev\<close> is better, or \<open>ev\<close> has the larger \<open>maxDepth\<close>, and
  stays as it was otherwise; on the cursor's path the shapes are recomputed and the view
  redrawn.
\<close>

theorem onNewCeval_identity:
  "(nodeAtPath p (tree s) = Some n \<and> fen (data n) \<noteq> ev_fen ev \<longrightarrow> onNewCeval ev p False s = s)
   \<and> (nodeAtPath p (tree s) = Some n \<longrightarrow>
        nodeAtPath p (tree (onNewCeval ev p True s)) =
          Some (if (case threat (data n) of
                      None \<Rightarrow> True
                    | Some t \<Rightarrow> isEvalBetter ev (Some t) \<or> maxDepth t < maxDepth ev)
                then Node ((data n)\<lparr>threat := Some ev\<rparr>) (children n)
                else n)
        \<and> events (onNewCeval ev p True s) =
            events s @ (if p = path s
                        then (if chessground s then [SetAutoShapes] else []) @ [Redraw]
                        else []))"
proof (intro conjI impI)
  assume "nodeAtPath p (tree s) = Some n \<and> fen (data n) \<noteq> ev_fen ev"
  then show "onNewCeval ev p False s = s" by (simp add: onNewCeval_def)
next
  assume h: "nodeAtPath p (tree s) = Some n"
  show "nodeAtPath p (tree (onNewCeval ev p True s)) =
          Some (if (case threat (data n) of
                      None \<Rightarrow> True
                    | Some t \<Rightarrow> isEvalBetter ev (Some t) \<or> maxDepth t < maxDepth ev)
                then Node ((data n)\<lparr>threat := Some ev\<rparr>) (children n)
                else n)"
    using onNewCeval_node [OF h, of ev True] by (simp add: store_eval_def Let_def)
  show "events (onNewCeval ev p True s) =
            events s @ (if p = path s
                        then (if chessground s then [SetAutoShapes] else []) @ [Redraw]
                        else [])"
    using h by (simp add: onNewCeval_def ceval_events_def emit_def Let_def)
qed

theorem onNewCeval_identity_witness:
  "nodeAtPath [''e4''] (tree ex_ctrl) = Some ex_e4 \<and> fen (data ex_e4) \<noteq> ev_fen ex_stale
   \<and> onNewCeval ex_stale [''e4''] False ex_ctrl = ex_ctrl
   \<and> nodeAtPath [''e4''] (tree (onNewCeval ex_stale [''e4''] True ex_ctrl)) =
       Some (Node ((data ex_e4)\<lparr>threat := Some ex_stale\<rparr>) (children ex_e4))
   \<and> events (onNewCeval ex_stale [''e4''] True ex_ctrl) = [SetAutoShapes, Redraw]"
  using onNewCeval_identity [of "[''e4'']" ex_ctrl ex_e4 ex_stale]
  by (simp add: childById_def ex_stale_def ex_defs)

lemma store_eval_ceval:
  assumes "ceval (data n) = Some c"
  shows "\<exists>c'. ceval (data (store_eval ev False n)) = Some c' \<and> depth c \<le> depth c'"
  using assms by (auto simp: store_eval_def isEvalBetter_def Let_def)

lemma onNewCeval_step:
  assumes "nodeAtPath p (tree s) = Some n" and "ceval (data n) = Some c"
  shows "\<exists>n' c'. nodeAtPath p (tree (onNewCeval ev p False s)) = Some n'
                 \<and> ceval (data n') = Some c' \<and> depth c \<le> depth c'"
  using onNewCeval_node [OF assms(1), of ev False] store_eval_ceval [OF assms(2), of ev]
  by auto

lemma apply_evals_steps:
  assumes "nodeAtPath p (tree s) = Some n" and "ceval (data n) = Some c"
  shows "\<exists>n' c'. nodeAtPath p (tree (apply_evals es p s)) = Some n'
                 \<and> ceval (data n') = Some c' \<and> depth c \<le> depth c'"
  using assms
proof (induction es arbitrary: s n c)
  case Nil
  then show ?case by simp
next
  case (Cons e es)
  from onNewCeval_step [OF Cons.prems, of e]
  obtain n1 c1 where 1: "nodeAtPath p (tree (onNewCeval e p False s)) = Some n1"
    and 2: "ceval (data n1) = Some c1" and 3: "depth c \<le> depth c1" by blast
  from Cons.IH [OF 1 2]
  obtain n' c' where "nodeAtPath p (tree (apply_evals es p (onNewCeval e p False s))) = Some n'"
    and "ceval (data n') = Some c'" and "depth c1 \<le> depth c'" by blast
  with 3 show ?case by auto
qed

text \<open>
  Claim C3. Let the node at \<open>p\<close> hold the client evaluation \<open>c\<close>. After one evaluation
  \<open>ev\<close>, and after any sequence \<open>es\<close> of evaluations, delivered by \<open>onNewCeval\<close> for \<open>p\<close>
  without threat mode, the node holds a client evaluation of depth at least that of \<open>c\<close>.
  An evaluation of lower depth than \<open>c\<close> does not replace it: the stored record is \<open>c\<close> up
  to its field \<open>maxDepth\<close>. When \<open>ev\<close> is not better than \<open>c\<close> and has the larger
  \<open>maxDepth\<close>, the stored record is \<open>c\<close> with the \<open>maxDepth\<close> of \<open>ev\<close> (and \<open>c\<close> itself if
  \<open>ev\<close> is of another position and so discarded).
\<close>

theorem ceval_depth_monotone:
  assumes "nodeAtPath p (tree s) = Some n" and "ceval (data n) = Some c"
  shows "(\<exists>n' c'. nodeAtPath p (tree (onNewCeval ev p False s)) = Some n'
                  \<and> ceval (data n') = Some c' \<and> depth c \<le> depth c')
       \<and> (\<exists>n' c'. nodeAtPath p (tree (apply_evals es p s)) = Some n'
                  \<and> ceval (data n') = Some c' \<and> depth c \<le> depth c')
       \<and> (depth ev < depth c \<longrightarrow>
            (\<exists>n' m. nodeAtPath p (tree (onNewCeval ev p False s)) = Some n'
                    \<and> ceval (data n') = Some (c\<lparr>maxDepth := m\<rparr>)))
       \<and> (\<not> isEvalBetter ev (Some c) \<and> maxDepth c < maxDepth ev \<longrightarrow>
            (\<exists>n'. nodeAtPath p (tree (onNewCeval ev p False s)) = Some n'
                  \<and> ceval (data n') =
                      Some (c\<lparr>maxDepth := (if fen (data n) = ev_fen ev then maxDepth ev
                                            else maxDepth c)\<rparr>)))"
proof (intro conjI impI)
  show "\<exists>n' c'. nodeAtPath p (tree (onNewCeval ev p False s)) = Some n'
                  \<and> ceval (data n') = Some c' \<and> depth c \<le> depth c'"
    by (rule onNewCeval_step [OF assms])
  show "\<exists>n' c'. nodeAtPath p (tree (apply_evals es p s)) = Some n'
                  \<and> ceval (data n') = Some c' \<and> depth c \<le> depth c'"
    by (rule apply_evals_steps [OF assms])
next
  assume lower: "depth ev < depth c"
  have "ceval (data (store_eval ev False n)) = Some c
        \<or> ceval (data (store_eval ev False n)) = Some (c\<lparr>maxDepth := maxDepth ev\<rparr>)"
    using assms(2) lower by (auto simp: store_eval_def isEvalBetter_def Let_def)
  moreover have "c = c\<lparr>maxDepth := maxDepth c\<rparr>" by simp
  ultimately show "\<exists>n' m. nodeAtPath p (tree (onNewCeval ev p False s)) = Some n'
                    \<and> ceval (data n') = Some (c\<lparr>maxDepth := m\<rparr>)"
    using onNewCeval_node [OF assms(1), of ev False] by metis
next
  assume nb: "\<not> isEvalBetter ev (Some c) \<and> maxDepth c < maxDepth ev"
  have "ceval (data (store_eval ev False n)) =
          Some (c\<lparr>maxDepth := (if fen (data n) = ev_fen ev then maxDepth ev else maxDepth c)\<rparr>)"
    using assms(2) nb by (auto simp: store_eval_def Let_def)
  then show "\<exists>n'. nodeAtPath p (tree (onNewCeval ev p False s)) = Some n'
                  \<and> ceval (data n') =
                      Some (c\<lparr>maxDepth := (if fen (data n) = ev_fen ev then maxDepth ev
                                            else maxDepth c)\<rparr>)"
    using onNewCeval_node [OF assms(1), of ev False] by simp
qed

theorem ceval_depth_monotone_witness:
  "nodeAtPath [''e4''] (tree ex_ctrl) = Some ex_e4 \<and> ceval (data ex_e4) = Some (ex_eval 22)
   \<and> depth ex_shallow < depth (ex_eval 22)
   \<and> \<not> isEvalBetter ex_shallow (Some (ex_eval 22))
   \<and> maxDepth (ex_eval 22) < maxDepth ex_shallow
   \<and> (\<exists>n' c'. nodeAtPath [''e4''] (tree (apply_evals [ex_eval 25, ex_shallow] [''e4''] ex_ctrl))
                 = Some n'
               \<and> ceval (data n') = Some c' \<and> depth (ex_eval 22) \<le> depth c')
   \<and> (\<exists>n'. nodeAtPath [''e4''] (tree (onNewCeval ex_shallow [''e4''] False ex_ctrl)) = Some n'
            \<and> ceval (data n') = Some ((ex_eval 22)\<lparr>maxDepth := 120\<rparr>))"
proof -
  have h1: "nodeAtPath [''e4''] (tree ex_ctrl) = Some ex_e4"
    by (simp add: childById_def ex_defs)
  have h2: "ceval (data ex_e4) = Some (ex_eval 22)"
    by (simp add: ex_defs)
  show ?thesis
    using ceval_depth_monotone [OF h1 h2, of ex_shallow "[ex_eval 25, ex_shallow]"] h1 h2
    by (simp add: isEvalBetter_def ex_shallow_def ex_eval_def ex_e4_def mk_data_def)
qed

lemma onCrash_fallback:
  assumes "pnaclSupported (cevalC s)" and "cur_node s = Some n"
    and "\<not> (\<exists>c. ceval (data n) = Some c \<and> 20 \<le> depth c \<and> \<not> retried c)"
  shows "onCrash cevalCtrl s =
           Inr ((emit [ConsoleLog ''Local eval failed after depth'',
                       ConsoleLog ''Fallback to ASMJS now'',
                       CevalDestroy, CevalInstantiate (failsafe_opts s), StartCeval] s)
                  \<lparr>cevalC := cevalCtrl (failsafe_opts s)\<rparr>)"
  using assms
  by (auto simp: onCrash_def instanciateCeval_def failsafe_opts_def emit_def Let_def
           split: option.splits)

lemma onCrash_retry:
  assumes "pnaclSupported (cevalC s)" and "cur_node s = Some n"
    and "ceval (data n) = Some c" and "20 \<le> depth c" and "\<not> retried c"
  shows "onCrash cevalCtrl s =
           Inr ((emit [ConsoleLog ''Local eval failed after depth'',
                       ConsoleLog ''Remain on native stockfish for now''] s)
                  \<lparr>tree := updateAt (path s) mark_retried (tree s)\<rparr>)"
  using assms by (simp add: onCrash_def emit_def Let_def)

text \<open>
  Claim C4, as amended. Let the engine controller report \<open>pnaclSupported\<close> and the cursor
  resolve to the node \<open>n\<close>. If \<open>n\<close> holds a client evaluation of depth at least 20 whose
  flag \<open>retried\<close> is unset, a crash marks it as retried and keeps the engine, nothing is
  instantiated or started, and a second crash right after it instantiates the engine
  with \<open>failsafe = true\<close> and calls \<open>startCeval\<close>. Otherwise the first crash already
  instantiates the engine with \<open>failsafe = true\<close> and calls \<open>startCeval\<close>.
\<close>

theorem onCrash_two_strikes:
  assumes "pnaclSupported (cevalC s)" and "cur_node s = Some n"
  shows
    "(\<forall>c. ceval (data n) = Some c \<and> 20 \<le> depth c \<and> \<not> retried c \<longrightarrow>
        (\<exists>s1 n1. onCrash cevalCtrl s = Inr s1
           \<and> cevalC s1 = cevalC s \<and> path s1 = path s
           \<and> events s1 = events s @ [ConsoleLog ''Local eval failed after depth'',
                                      ConsoleLog ''Remain on native stockfish for now'']
           \<and> cur_node s1 = Some n1 \<and> ceval (data n1) = Some (c\<lparr>retried := True\<rparr>)
           \<and> (\<exists>s2. onCrash cevalCtrl s1 = Inr s2
                 \<and> cevalC s2 = cevalCtrl (failsafe_opts s)
                 \<and> tree s2 = tree s1
                 \<and> events s2 = events s1 @ [ConsoleLog ''Local eval failed after depth'',
                                            ConsoleLog ''Fallback to ASMJS now'',
                                            CevalDestroy, CevalInstantiate (failsafe_opts s),
                                            StartCeval])))
     \<and> (\<not> (\<exists>c. ceval (data n) = Some c \<and> 20 \<le> depth c \<and> \<not> retried c) \<longrightarrow>
          (\<exists>s1. onCrash cevalCtrl s = Inr s1
             \<and> cevalC s1 = cevalCtrl (failsafe_opts s) \<and> opt_failsafe (failsafe_opts s)
             \<and> tree s1 = tree s
             \<and> events s1 = events s @ [ConsoleLog ''Local eval failed after depth'',
                                        ConsoleLog ''Fallback to ASMJS now'',
                                        CevalDestroy, CevalInstantiate (failsafe_opts s),
                                        StartCeval]))"
proof (intro conjI allI impI)
  fix c
  assume h: "ceval (data n) = Some c \<and> 20 \<le> depth c \<and> \<not> retried c"
  define s1 where "s1 = (emit [ConsoleLog ''Local eval failed after depth'',
                       ConsoleLog ''Remain on native stockfish for now''] s)
                  \<lparr>tree := updateAt (path s) mark_retried (tree s)\<rparr>"
  have first: "onCrash cevalCtrl s = Inr s1"
    using onCrash_retry [OF assms, of c cevalCtrl] h by (simp add: s1_def)
  have node1: "cur_node s1 = Some (mark_retried n)"
    using assms(2) nodeAtPath_updateAt [of mark_retried "path s" "tree s", OF mark_retried_node_id]
    by (simp add: cur_node_eq s1_def emit_def)
  have ceval1: "ceval (data (mark_retried n)) = Some (c\<lparr>retried := True\<rparr>)"
    using h by (simp add: mark_retried_def)
  have pn1: "pnaclSupported (cevalC s1)"
    using assms(1) by (simp add: s1_def emit_def)
  have no_retry: "\<not> (\<exists>c'. ceval (data (mark_retried n)) = Some c' \<and> 20 \<le> depth c' \<and> \<not> retried c')"
    using ceval1 by simp
  have opts: "failsafe_opts s1 = failsafe_opts s"
    by (simp add: failsafe_opts_def s1_def emit_def)
  have second: "onCrash cevalCtrl s1 =
           Inr ((emit [ConsoleLog ''Local eval failed after depth'',
                       ConsoleLog ''Fallback to ASMJS now'',
                       CevalDestroy, CevalInstantiate (failsafe_opts s), StartCeval] s1)
                  \<lparr>cevalC := cevalCtrl (failsafe_opts s)\<rparr>)"
    using onCrash_fallback [OF pn1 node1 no_retry, of cevalCtrl] opts by simp
  show "\<exists>s1 n1. onCrash cevalCtrl s = Inr s1
           \<and> cevalC s1 = cevalC s \<and> path s1 = path s
           \<and> events s1 = events s @ [ConsoleLog ''Local eval failed after depth'',
                                      ConsoleLog ''Remain on native stockfish for now'']
           \<and> cur_node s1 = Some n1 \<and> ceval (data n1) = Some (c\<lparr>retried := True\<rparr>)
           \<and> (\<exists>s2. onCrash cevalCtrl s1 = Inr s2
                 \<and> cevalC s2 = cevalCtrl (failsafe_opts s)
                 \<and> tree s2 = tree s1
                 \<and> events s2 = events s1 @ [ConsoleLog ''Local eval failed after depth'',
                                            ConsoleLog ''Fallback to ASMJS now'',
                                            CevalDestroy, CevalInstantiate (failsafe_opts s),
                                            StartCeval])"
    apply (rule exI [of _ s1], rule exI [of _ "mark_retried n"])
    using first node1 ceval1 second
    by (simp add: s1_def emit_def)
next
  assume h: "\<not> (\<exists>c. ceval (data n) = Some c \<and> 20 \<le> depth c \<and> \<not> retried c)"
  show "\<exists>s1. onCrash cevalCtrl s = Inr s1
             \<and> cevalC s1 = cevalCtrl (failsafe_opts s) \<and> opt_failsafe (failsafe_opts s)
             \<and> tree s1 = tree s
             \<and> events s1 = events s @ [ConsoleLog ''Local eval failed after depth'',
                                        ConsoleLog ''Fallback to ASMJS now'',
                                        CevalDestroy, CevalInstantiate (failsafe_opts s),
                                        StartCeval]"
    using onCrash_fallback [OF assms h, of cevalCtrl]
    by (simp add: emit_def failsafe_opts_def)
qed

theorem onCrash_two_strikes_witness:
  "pnaclSupported (cevalC ex_ctrl) \<and> cur_node ex_ctrl = Some ex_e4
   \<and> ceval (data ex_e4) = Some (ex_eval 22) \<and> 20 \<le> depth (ex_eval 22)
   \<and> \<not> retried (ex_eval 22)
   \<and> (\<exists>s1 s2. onCrash ex_cevalCtrl ex_ctrl = Inr s1 \<and> cevalC s1 = cevalC ex_ctrl
         \<and> onCrash ex_cevalCtrl s1 = Inr s2
         \<and> cevalC s2 = ex_cevalCtrl (failsafe_opts ex_ctrl)
         \<and> \<not> pnaclSupported (cevalC s2))
   \<and> \<not> (\<exists>c. ceval (data ex_d4) = Some c \<and> 20 \<le> depth c \<and> \<not> retried c)
   \<and> cur_node (ex_ctrl\<lparr>path := [''d4'']\<rparr>) = Some ex_d4
   \<and> (\<exists>s1. onCrash ex_cevalCtrl (ex_ctrl\<lparr>path := [''d4'']\<rparr>) = Inr s1
         \<and> cevalC s1 = ex_cevalCtrl (failsafe_opts ex_ctrl))"
proof -
  have pn: "pnaclSupported (cevalC ex_ctrl)"
    by (simp add: ex_defs)
  have pn': "pnaclSupported (cevalC (ex_ctrl\<lparr>path := [''d4'']\<rparr>))"
    by (simp add: ex_defs)
  have d4: "cur_node (ex_ctrl\<lparr>path := [''d4'']\<rparr>) = Some ex_d4"
    by (simp add: cur_node_eq childById_def ex_defs)
  have e4: "ceval (data ex_e4) = Some (ex_eval 22) \<and> 20 \<le> depth (ex_eval 22)
            \<and> \<not> retried (ex_eval 22)"
    by (simp add: ex_defs)
  have none: "\<not> (\<exists>c. ceval (data ex_d4) = Some c \<and> 20 \<le> depth c \<and> \<not> retried c)"
    by (simp add: ex_defs)
  have opts: "failsafe_opts (ex_ctrl\<lparr>path := [''d4'']\<rparr>) = failsafe_opts ex_ctrl"
    by (simp add: failsafe_opts_def)
  have fs: "\<not> pnaclSupported (ex_cevalCtrl (failsafe_opts ex_ctrl))"
    by (simp add: ex_cevalCtrl_def failsafe_opts_def)
  show ?thesis
    using onCrash_two_strikes [OF pn cur_node_ex_ctrl, of ex_cevalCtrl]
          onCrash_two_strikes [OF pn' d4, of ex_cevalCtrl]
          pn d4 e4 none opts fs cur_node_ex_ctrl
    by (simp only: simp_thms) metis
qed

text \<open>
  The claim as stated does not depend on \<open>pnaclSupported\<close>. Without it, a crash on the
  node \<open>e4\<close>, evaluated at depth 22 and not retried, leaves the evaluation unmarked; and a
  crash on the node \<open>d4\<close>, which has no evaluation, instantiates nothing and does not
  call \<open>startCeval\<close>.
\<close>

theorem onCrash_no_pnacl_counterexample:
  "cur_node ex_nopnacl = Some ex_e4 \<and> ceval (data ex_e4) = Some (ex_eval 22)
   \<and> 20 \<le> depth (ex_eval 22) \<and> \<not> retried (ex_eval 22)
   \<and> onCrash ex_cevalCtrl ex_nopnacl
       = Inr (ex_nopnacl\<lparr>events := [ConsoleLog ''Local eval failed after depth'']\<rparr>)
   \<and> cur_node (ex_nopnacl\<lparr>path := [''d4'']\<rparr>) = Some ex_d4 \<and> ceval (data ex_d4) = None
   \<and> onCrash ex_cevalCtrl (ex_nopnacl\<lparr>path := [''d4'']\<rparr>)
       = Inr (ex_nopnacl\<lparr>path := [''d4''],
                          events := [ConsoleLog ''Local eval failed after depth'']\<rparr>)"
  by (simp add: onCrash_def emit_def cur_node_eq childById_def ex_nopnacl_def ex_defs)

subsection \<open>Jumps\<close>

lemma showGround_events_setPath: "showGround_events (setPath p s) n = showGround_events s n"
  by (simp add: showGround_events_def setPath_def)

lemma jump_unchanged:
  assumes "cur_node s = Some n"
  shows "jump (path s) s =
           Inr (s\<lparr>justPlayed := None, justDropped := None, justCaptured := None,
                  autoScrollRequested := True,
                  events := events s @ showGround_events s n
                            @ [ExplorerSetNode, UpdateHref, PromotionCancel]
                            @ (if music s then [MusicJump] else [])\<rparr>)"
  using assms
  by (simp add: jump_def showGround_def setPath_def cur_node_eq emit_def and_then_def
                showGround_events_def Let_def)

lemma jump_changed_eq:
  assumes "p \<noteq> path s" and "nodeAtPath p (tree s) = Some n"
    and "move_sound (justPlayed s) n = Inr snds"
  shows "jump p s =
           Inr (s\<lparr>path := p, threatMode := False,
                  justPlayed := None, justDropped := None, justCaptured := None,
                  autoScrollRequested := True,
                  events := events s @ showGround_events s n
                            @ (if study s then [StudySetPath p] else [])
                            @ snds @ check_sound n
                            @ [CevalStop, StartCeval, ExplorerSetNode, UpdateHref, PromotionCancel]
                            @ (if retro s then [RetroOnJump] else [])
                            @ (if practice s then [PracticeOnJump] else [])
                            @ (if study s then [StudyOnJump] else [])
                            @ (if music s then [MusicJump] else [])\<rparr>)"
  using assms
  by (simp add: jump_def showGround_def setPath_def cur_node_eq emit_def and_then_def
                showGround_events_def jump_changed_def jump_notify_def Let_def)

lemma jump_Inr_node:
  assumes "jump p s = Inr s1"
  shows "\<exists>n. nodeAtPath p (tree s) = Some n"
  using assms
  by (cases "nodeAtPath p (tree s)")
     (simp_all add: jump_def showGround_def setPath_def cur_node_eq and_then_def Let_def)

lemma jump_Inr_sound:
  assumes "jump p s = Inr s1" and "p \<noteq> path s" and "nodeAtPath p (tree s) = Some n"
  shows "\<exists>snds. move_sound (justPlayed s) n = Inr snds"
  using assms
  by (cases "move_sound (justPlayed s) n"; cases "study s")
     (simp_all add: jump_def showGround_def setPath_def cur_node_eq and_then_def Let_def
                    jump_changed_def emit_def)

lemma move_sound_ok: "san_ok (data n) \<Longrightarrow> \<exists>snds. move_sound jp n = Inr snds"
  by (auto simp: san_ok_def move_sound_def split: option.splits)

lemma move_sound_events:
  "move_sound jp n = Inr snds \<Longrightarrow> snds = [] \<or> snds = [SoundMove] \<or> snds = [SoundCapture]"
  by (auto simp: move_sound_def split: option.splits if_splits)

lemma check_sound_events: "check_sound n = [] \<or> check_sound n = [SoundCheck]"
  by (simp add: check_sound_def split: option.splits)

lemma jump_ok:
  assumes "nodeAtPath p (tree s) = Some n" and "p \<noteq> path s \<longrightarrow> san_ok (data n)"
  shows "\<exists>s'. jump p s = Inr s'"
proof (cases "p = path s")
  case True
  then show ?thesis using jump_unchanged [of s n] assms(1) by (simp add: cur_node_eq)
next
  case False
  then obtain snds where "move_sound (justPlayed s) n = Inr snds"
    using move_sound_ok assms(2) by blast
  then show ?thesis using jump_changed_eq [OF False assms(1)] by blast
qed

lemma jump_frame:
  assumes "jump p s = Inr s'"
  shows "path s' = p \<and> tree s' = tree s \<and> chessground s' = chessground s
         \<and> study s' = study s \<and> practice s' = practice s \<and> cevalC s' = cevalC s
         \<and> (\<exists>es. events s' = events s @ es)"
proof -
  obtain n where n: "nodeAtPath p (tree s) = Some n" using jump_Inr_node [OF assms] by blast
  show ?thesis
  proof (cases "p = path s")
    case True
    then show ?thesis using jump_unchanged [of s n] n assms by (auto simp: cur_node_eq)
  next
    case False
    then obtain snds where "move_sound (justPlayed s) n = Inr snds"
      using jump_Inr_sound [OF assms False n] by blast
    then show ?thesis using jump_changed_eq [OF False n] assms by auto
  qed
qed

lemma showGround_events_no_cycle: "filter jump_cycle (showGround_events s n) = []"
  by (simp add: showGround_events_def)

lemma new_events_append: "events s' = events s @ es \<Longrightarrow> new_events s s' = es"
  by (simp add: new_events_def)

lemma count_showGround:
  "jump_cycle e \<Longrightarrow> count_list (showGround_events s n) e = 0"
  using showGround_events_no_cycle [of s n]
  by (metis count_list_0_iff empty_filter_conv)

text \<open>
  Claim C1. When \<open>jump(p)\<close> is called with \<open>p\<close> the current path (on a cursor that
  resolves to the node \<open>n\<close>), the board is rendered again (\<open>showGround\<close> runs, and an
  attached board receives the configuration of \<open>n\<close>), the explorer is told, the address
  is updated and a promotion cancelled, and nothing else is called: no sound, no stop or
  start of the engine, no notification of study, retrospection or practice; the threat
  mode is not changed. Hence when two calls of \<open>jump(p)\<close> follow each other, the second
  makes none of the guarded calls, and if \<open>p\<close> was not the path before the first call,
  the two together stop the engine once, call \<open>startCeval\<close> once, notify each attached
  sub-feature once and play at most one move or capture sound and one check sound.
\<close>

theorem jump_redundant:
  "(cur_node s = Some n \<longrightarrow>
      jump (path s) s =
        Inr (s\<lparr>justPlayed := None, justDropped := None, justCaptured := None,
               autoScrollRequested := True,
               events := events s @ showGround_events s n
                         @ [ExplorerSetNode, UpdateHref, PromotionCancel]
                         @ (if music s then [MusicJump] else [])\<rparr>)
      \<and> (chessground s \<longrightarrow> ChessgroundSet (fen (data n)) \<in> set (showGround_events s n))
      \<and> filter jump_cycle (showGround_events s n
                            @ [ExplorerSetNode, UpdateHref, PromotionCancel]
                            @ (if music s then [MusicJump] else [])) = [])
   \<and> (jump p s = Inr s1 \<longrightarrow>
        (\<exists>s2. jump p s1 = Inr s2
           \<and> threatMode s2 = threatMode s1 \<and> cevalC s2 = cevalC s1
           \<and> filter jump_cycle (new_events s1 s2) = []
           \<and> (p \<noteq> path s \<longrightarrow>
                count_list (new_events s s2) CevalStop = 1
                \<and> count_list (new_events s s2) StartCeval = 1
                \<and> count_list (new_events s s2) (StudySetPath p) = (if study s then 1 else 0)
                \<and> count_list (new_events s s2) RetroOnJump = (if retro s then 1 else 0)
                \<and> count_list (new_events s s2) PracticeOnJump = (if practice s then 1 else 0)
                \<and> count_list (new_events s s2) StudyOnJump = (if study s then 1 else 0)
                \<and> count_list (new_events s s2) SoundMove
                    + count_list (new_events s s2) SoundCapture \<le> 1
                \<and> count_list (new_events s s2) SoundCheck \<le> 1)))"
proof (intro conjI impI)
  assume c: "cur_node s = Some n"
  show "jump (path s) s =
        Inr (s\<lparr>justPlayed := None, justDropped := None, justCaptured := None,
               autoScrollRequested := True,
               events := events s @ showGround_events s n
                         @ [ExplorerSetNode, UpdateHref, PromotionCancel]
                         @ (if music s then [MusicJump] else [])\<rparr>)"
    by (rule jump_unchanged [OF c])
  show "filter jump_cycle (showGround_events s n
                            @ [ExplorerSetNode, UpdateHref, PromotionCancel]
                            @ (if music s then [MusicJump] else [])) = []"
    by (simp add: showGround_events_no_cycle)
next
  assume "chessground s"
  then show "ChessgroundSet (fen (data n)) \<in> set (showGround_events s n)"
    by (simp add: showGround_events_def)
next
  assume j: "jump p s = Inr s1"
  obtain m where m: "nodeAtPath p (tree s) = Some m" using jump_Inr_node [OF j] by blast
  have fr: "path s1 = p \<and> tree s1 = tree s" using jump_frame [OF j] by simp
  then have c1: "cur_node s1 = Some m" using m by (simp add: cur_node_eq)
  define tl_events where "tl_events = showGround_events s1 m
                         @ [ExplorerSetNode, UpdateHref, PromotionCancel]
                         @ (if music s1 then [MusicJump] else [])"
  define s2 where "s2 = s1\<lparr>justPlayed := None, justDropped := None, justCaptured := None,
               autoScrollRequested := True, events := events s1 @ tl_events\<rparr>"
  have j2: "jump p s1 = Inr s2"
    using jump_unchanged [OF c1] fr by (simp add: s2_def tl_events_def)
  have quiet: "filter jump_cycle tl_events = []"
    by (simp add: tl_events_def showGround_events_no_cycle)
  have ne12: "new_events s1 s2 = tl_events"
    by (rule new_events_append) (simp add: s2_def)
  have tl_count: "\<And>e. jump_cycle e \<Longrightarrow> count_list tl_events e = 0"
    using quiet by (metis count_list_0_iff empty_filter_conv)
  have changed: "count_list (new_events s s2) CevalStop = 1
                \<and> count_list (new_events s s2) StartCeval = 1
                \<and> count_list (new_events s s2) (StudySetPath p) = (if study s then 1 else 0)
                \<and> count_list (new_events s s2) RetroOnJump = (if retro s then 1 else 0)
                \<and> count_list (new_events s s2) PracticeOnJump = (if practice s then 1 else 0)
                \<and> count_list (new_events s s2) StudyOnJump = (if study s then 1 else 0)
                \<and> count_list (new_events s s2) SoundMove
                    + count_list (new_events s s2) SoundCapture \<le> 1
                \<and> count_list (new_events s s2) SoundCheck \<le> 1" if ne: "p \<noteq> path s"
  proof -
    obtain snds where snds: "move_sound (justPlayed s) m = Inr snds"
      using jump_Inr_sound [OF j ne m] by blast
    define hd_events where "hd_events = showGround_events s m
                            @ (if study s then [StudySetPath p] else [])
                            @ snds @ check_sound m
                            @ [CevalStop, StartCeval, ExplorerSetNode, UpdateHref, PromotionCancel]
                            @ (if retro s then [RetroOnJump] else [])
                            @ (if practice s then [PracticeOnJump] else [])
                            @ (if study s then [StudyOnJump] else [])
                            @ (if music s then [MusicJump] else [])"
    have e1: "events s1 = events s @ hd_events"
      using jump_changed_eq [OF ne m snds] j by (auto simp: hd_events_def)
    have "events s2 = events s @ (hd_events @ tl_events)"
      using e1 by (simp add: s2_def)
    then have ne2: "new_events s s2 = hd_events @ tl_events"
      by (rule new_events_append)
    have sg: "\<And>e. jump_cycle e \<Longrightarrow> count_list (showGround_events s m) e = 0"
      by (rule count_showGround)
    have snd3: "snds = [] \<or> snds = [SoundMove] \<or> snds = [SoundCapture]"
      by (rule move_sound_events [OF snds])
    have chk: "check_sound m = [] \<or> check_sound m = [SoundCheck]"
      by (rule check_sound_events)
    show ?thesis
      unfolding ne2 count_list_append
      using snd3 chk
      by (auto simp: hd_events_def tl_count sg)
  qed
  show "\<exists>s2. jump p s1 = Inr s2
           \<and> threatMode s2 = threatMode s1 \<and> cevalC s2 = cevalC s1
           \<and> filter jump_cycle (new_events s1 s2) = []
           \<and> (p \<noteq> path s \<longrightarrow>
                count_list (new_events s s2) CevalStop = 1
                \<and> count_list (new_events s s2) StartCeval = 1
                \<and> count_list (new_events s s2) (StudySetPath p) = (if study s then 1 else 0)
                \<and> count_list (new_events s s2) RetroOnJump = (if retro s then 1 else 0)
                \<and> count_list (new_events s s2) PracticeOnJump = (if practice s then 1 else 0)
                \<and> count_list (new_events s s2) StudyOnJump = (if study s then 1 else 0)
                \<and> count_list (new_events s s2) SoundMove
                    + count_list (new_events s s2) SoundCapture \<le> 1
                \<and> count_list (new_events s s2) SoundCheck \<le> 1)"
    apply (rule exI [of _ s2])
    using j2 ne12 quiet changed by (simp add: s2_def)
qed

lemma jump_ex: "jump [''e4'', ''e5''] (ex_ctrl\<lparr>justPlayed := Some ''g1''\<rparr>) = Inr ex_jumped"
  by (simp add: jump_def showGround_def showGround_events_def setPath_def cur_node_eq emit_def
        and_then_def jump_changed_def jump_notify_def move_sound_def check_sound_def
        childById_def ex_jumped_def ex_defs Let_def)

theorem jump_redundant_witness:
  "cur_node ex_ctrl = Some ex_e4 \<and> chessground ex_ctrl
   \<and> jump [''e4''] ex_ctrl =
       Inr (ex_ctrl\<lparr>autoScrollRequested := True,
                     events := [OnChange, GetDests, ChessgroundSet ''fen-e4'', SetAutoShapes,
                                ExplorerSetNode, UpdateHref, PromotionCancel]\<rparr>)
   \<and> jump [''e4'', ''e5''] (ex_ctrl\<lparr>justPlayed := Some ''g1''\<rparr>) = Inr ex_jumped
   \<and> [''e4'', ''e5''] \<noteq> path (ex_ctrl\<lparr>justPlayed := Some ''g1''\<rparr>)
   \<and> (\<exists>s2. jump [''e4'', ''e5''] ex_jumped = Inr s2
         \<and> filter jump_cycle (new_events ex_jumped s2) = []
         \<and> count_list (new_events (ex_ctrl\<lparr>justPlayed := Some ''g1''\<rparr>) s2) CevalStop = 1
         \<and> count_list (new_events (ex_ctrl\<lparr>justPlayed := Some ''g1''\<rparr>) s2) StartCeval = 1)"
proof -
  have a: "jump [''e4''] ex_ctrl =
       Inr (ex_ctrl\<lparr>autoScrollRequested := True,
                     events := [OnChange, GetDests, ChessgroundSet ''fen-e4'', SetAutoShapes,
                                ExplorerSetNode, UpdateHref, PromotionCancel]\<rparr>)"
    using jump_redundant [of ex_ctrl ex_e4 "[]" ex_ctrl] cur_node_ex_ctrl
    by (simp add: showGround_events_def ex_defs)
  have b: "[''e4'', ''e5''] \<noteq> path (ex_ctrl\<lparr>justPlayed := Some ''g1''\<rparr>)"
    by (simp add: ex_defs)
  have c: "chessground ex_ctrl" by (simp add: ex_defs)
  show ?thesis
    using jump_redundant [of "ex_ctrl\<lparr>justPlayed := Some ''g1''\<rparr>" ex_e4 "[''e4'', ''e5'']" ex_jumped]
          jump_ex a b c cur_node_ex_ctrl
    by (simp only: simp_thms) blast
qed

subsection \<open>Lookup after a deletion or an insertion\<close>

lemma find_filter_other: "(\<And>x. Q x \<Longrightarrow> R x) \<Longrightarrow> find Q (filter R xs) = find Q xs"
  by (induction xs) auto

lemma find_filter_none: "find Q (filter (\<lambda>x. \<not> Q x) xs) = None"
  by (induction xs) auto

lemma find_map_first_other:
  "(\<And>x. P x \<Longrightarrow> \<not> Q x \<and> \<not> Q (f x)) \<Longrightarrow> find Q (map_first P f xs) = find Q xs"
  by (induction xs) auto

lemma find_append_last:
  "find Q (xs @ [y]) = (case find Q xs of Some x \<Rightarrow> Some x | None \<Rightarrow> if Q y then Some y else None)"
  by (induction xs) auto

lemma removeChild_node_id: "node_id (data (removeChild i m)) = node_id (data m)"
  by (simp add: removeChild_def)

lemma push_child_node_id: "node_id (data (push_child c m)) = node_id (data m)"
  by (simp add: push_child_def)

lemma nodeAtPath_append:
  "nodeAtPath (p @ q) t = (case nodeAtPath p t of None \<Rightarrow> None | Some n \<Rightarrow> nodeAtPath q n)"
  by (induction p arbitrary: t) (auto split: option.splits)

lemma nodeAtPath_butlast:
  assumes "nodeAtPath p t = Some n"
  shows "\<exists>m. nodeAtPath (butlast p) t = Some m"
proof (cases "p = []")
  case True
  then show ?thesis by simp
next
  case False
  then have "p = butlast p @ [last p]" by simp
  then have "nodeAtPath (butlast p @ [last p]) t = Some n" using assms by simp
  then show ?thesis by (auto simp: nodeAtPath_append split: option.splits)
qed

lemma nodeAtPath_delete_other:
  "\<not> prefix (p0 @ [i]) q \<Longrightarrow> nodeAtPath q t = Some m \<Longrightarrow>
   \<exists>m'. nodeAtPath q (updateAt p0 (removeChild i) t) = Some m' \<and> data m' = data m"
proof (induction p0 arbitrary: t q m)
  case Nil
  show ?case
  proof (cases q)
    case Nil
    then show ?thesis using Nil.prems by (simp add: removeChild_def)
  next
    case (Cons j q')
    then have ji: "j \<noteq> i" using Nil.prems(1) by auto
    have "find (\<lambda>c. node_id (data c) = j) (filter (\<lambda>c. node_id (data c) \<noteq> i) (children t))
          = find (\<lambda>c. node_id (data c) = j) (children t)"
      using ji by (intro find_filter_other) simp
    then show ?thesis using Nil.prems(2) Cons by (simp add: removeChild_def childById_def)
  qed
next
  case (Cons k p0')
  show ?case
  proof (cases q)
    case Nil
    then show ?thesis using Cons.prems by simp
  next
    case (Cons j q')
    note q = Cons
    have keep: "\<And>x. node_id (data (updateAt p0' (removeChild i) x)) = node_id (data x)"
      by (rule updateAt_node_id) (rule removeChild_node_id)
    show ?thesis
    proof (cases "j = k")
      case True
      have f: "find (\<lambda>c. node_id (data c) = k)
                 (map_first (\<lambda>c. node_id (data c) = k) (updateAt p0' (removeChild i)) (children t))
               = map_option (updateAt p0' (removeChild i))
                   (find (\<lambda>c. node_id (data c) = k) (children t))"
        by (rule find_map_first) (simp add: keep)
      obtain c where c: "find (\<lambda>c. node_id (data c) = k) (children t) = Some c"
        and cm: "nodeAtPath q' c = Some m"
        using Cons.prems(2) q True by (auto simp: childById_def split: option.splits)
      have np: "\<not> prefix (p0' @ [i]) q'" using Cons.prems(1) q True by simp
      from Cons.IH [OF np cm] show ?thesis
        using q True f c by (simp add: childById_def)
    next
      case False
      have f: "find (\<lambda>c. node_id (data c) = j)
                 (map_first (\<lambda>c. node_id (data c) = k) (updateAt p0' (removeChild i)) (children t))
               = find (\<lambda>c. node_id (data c) = j) (children t)"
        using False by (intro find_map_first_other) (simp add: keep)
      show ?thesis using Cons.prems(2) q f by (simp add: childById_def)
    qed
  qed
qed

lemma nodeAtPath_delete_same: "nodeAtPath (p0 @ [i]) (updateAt p0 (removeChild i) t) = None"
proof (induction p0 arbitrary: t)
  case Nil
  show ?case
    using find_filter_none [of "\<lambda>c. node_id (data c) = i" "children t"]
    by (simp add: removeChild_def childById_def)
next
  case (Cons k p0')
  have keep: "\<And>x. node_id (data (updateAt p0' (removeChild i) x)) = node_id (data x)"
    by (rule updateAt_node_id) (rule removeChild_node_id)
  have f: "find (\<lambda>c. node_id (data c) = k)
             (map_first (\<lambda>c. node_id (data c) = k) (updateAt p0' (removeChild i)) (children t))
           = map_option (updateAt p0' (removeChild i))
               (find (\<lambda>c. node_id (data c) = k) (children t))"
    by (rule find_map_first) (simp add: keep)
  show ?case using f Cons.IH by (simp add: childById_def split: option.splits)
qed

lemma deleteNodeAt_other:
  assumes "\<not> prefix p q" and "nodeAtPath q t = Some m"
  shows "\<exists>m'. nodeAtPath q (deleteNodeAt p t) = Some m' \<and> data m' = data m"
proof -
  have ne: "p \<noteq> []" using assms(1) by auto
  then have "p = butlast p @ [last p]" by simp
  then have "\<not> prefix (butlast p @ [last p]) q" using assms(1) by simp
  from nodeAtPath_delete_other [OF this assms(2)] show ?thesis
    using ne by (simp add: deleteNodeAt_def)
qed

lemma deleteNodeAt_same: "p \<noteq> [] \<Longrightarrow> nodeAtPath p (deleteNodeAt p t) = None"
  using nodeAtPath_delete_same [of "butlast p" "last p" t] by (simp add: deleteNodeAt_def)

lemma moves_ok_data: "moves_ok n \<Longrightarrow> san_ok (data n)"
  by (cases n) simp

lemma moves_ok_child: "moves_ok n \<Longrightarrow> childById i n = Some c \<Longrightarrow> moves_ok c"
  by (cases n) (auto simp: childById_def find_Some_iff)

lemma moves_ok_nodeAtPath: "moves_ok t \<Longrightarrow> nodeAtPath p t = Some n \<Longrightarrow> moves_ok n"
  by (induction p arbitrary: t) (auto split: option.splits dest: moves_ok_child)

subsection \<open>User jumps\<close>

lemma userJump_unfold:
  "userJump p s =
     (if practice s
      then and_then (jump p (emit [PracticePreUserJump (path s) p]
                      (emit ([AutoplayStop] @ (if chessground s then [SelectSquareNull] else [])) s)))
             (\<lambda>s2. Inr (emit [PracticePostUserJump (path s) (path s2)] s2))
      else jump p (emit ([AutoplayStop] @ (if chessground s then [SelectSquareNull] else [])) s))"
  by (simp add: userJump_def Let_def emit_def)

lemma userJump_frame:
  assumes "userJump p s = Inr s'"
  shows "path s' = p \<and> tree s' = tree s \<and> study s' = study s"
proof (cases "practice s")
  case True
  then obtain s2 where j: "jump p (emit [PracticePreUserJump (path s) p]
         (emit ([AutoplayStop] @ (if chessground s then [SelectSquareNull] else [])) s)) = Inr s2"
    and s': "s' = emit [PracticePostUserJump (path s) (path s2)] s2"
    using assms unfolding userJump_unfold
    by (auto simp: and_then_def split: sum.splits)
  show ?thesis using jump_frame [OF j] s' by (simp add: emit_def)
next
  case False
  then have j: "jump p (emit ([AutoplayStop] @ (if chessground s then [SelectSquareNull] else [])) s)
                = Inr s'"
    using assms unfolding userJump_unfold by simp
  show ?thesis using jump_frame [OF j] by (simp add: emit_def)
qed

lemma userJump_ok:
  assumes "nodeAtPath p (tree s) = Some n" and "p \<noteq> path s \<longrightarrow> san_ok (data n)"
  shows "\<exists>s'. userJump p s = Inr s'"
proof -
  have ok: "\<exists>s'. jump p (emit es (emit es' s)) = Inr s'" for es es'
    using jump_ok [of p "emit es (emit es' s)" n] assms by (simp add: emit_def)
  show ?thesis
  proof (cases "practice s")
    case True
    obtain s2 where "jump p (emit [PracticePreUserJump (path s) p]
         (emit ([AutoplayStop] @ (if chessground s then [SelectSquareNull] else [])) s)) = Inr s2"
      using ok by blast
    then show ?thesis using True unfolding userJump_unfold by (simp add: and_then_def)
  next
    case False
    obtain s2 where "jump p (emit []
         (emit ([AutoplayStop] @ (if chessground s then [SelectSquareNull] else [])) s)) = Inr s2"
      using ok by blast
    then show ?thesis using False unfolding userJump_unfold by (simp add: emit_def)
  qed
qed

subsection \<open>Adding a node\<close>

lemma tree_addNode_None:
  "fst (tree_addNode nd p t) = None \<Longrightarrow> snd (tree_addNode nd p t) = t \<and> nodeAtPath p t = None"
  by (simp add: tree_addNode_def split: option.splits)

lemma tree_addNode_Some:
  assumes "fst (tree_addNode nd p t) = Some np"
  shows "np = p @ [node_id (data nd)] \<and> snd (tree_addNode nd p t) = updateAt p (push_child nd) t
         \<and> (\<exists>parent. nodeAtPath p t = Some parent)"
  using assms by (auto simp: tree_addNode_def split: option.splits)

lemma nodeAtPath_added:
  assumes "nodeAtPath p t = Some parent" and "moves_ok t" and "san_ok (data nd)"
  shows "\<exists>m. nodeAtPath (p @ [node_id (data nd)]) (updateAt p (push_child nd) t) = Some m
             \<and> san_ok (data m)"
proof -
  have at_p: "nodeAtPath p (updateAt p (push_child nd) t) = Some (push_child nd parent)"
    using nodeAtPath_updateAt [of "push_child nd" p t, OF push_child_node_id] assms(1) by simp
  have par: "moves_ok parent" using moves_ok_nodeAtPath [OF assms(2) assms(1)] .
  show ?thesis
  proof (cases "childById (node_id (data nd)) parent")
    case None
    then have "childById (node_id (data nd)) (push_child nd parent) = Some nd"
      by (simp add: childById_def push_child_def find_append_last)
    then show ?thesis using at_p assms(3) by (simp add: nodeAtPath_append)
  next
    case (Some c)
    then have "childById (node_id (data nd)) (push_child nd parent) = Some c"
      by (simp add: childById_def push_child_def find_append_last)
    moreover have "san_ok (data c)" using moves_ok_child [OF par Some] by (rule moves_ok_data)
    ultimately show ?thesis using at_p by (simp add: nodeAtPath_append)
  qed
qed

lemma addNode_unfold:
  "addNode nd p s =
     (case fst (tree_addNode nd p (tree s)) of
        None \<Rightarrow> Inr (emit [ConsoleLog ''Cannot addNode'', Redraw]
                      (s\<lparr>tree := snd (tree_addNode nd p (tree s))\<rparr>))
      | Some np \<Rightarrow>
          if np = []
          then Inr (emit [ConsoleLog ''Cannot addNode'', Redraw]
                      (s\<lparr>tree := snd (tree_addNode nd p (tree s))\<rparr>))
          else and_then (jump np (s\<lparr>tree := snd (tree_addNode nd p (tree s))\<rparr>))
                 (\<lambda>s2. if chessground s2 then Inr (emit [Redraw, PlayPremove] s2)
                       else Inl TypeError))"
  by (cases "tree_addNode nd p (tree s)") (auto simp: addNode_def Let_def split: option.splits)

lemma addNode_success:
  assumes "fst (tree_addNode nd p (tree s)) = Some np"
  shows "addNode nd p s =
          and_then (jump np (s\<lparr>tree := snd (tree_addNode nd p (tree s))\<rparr>))
            (\<lambda>s2. if chessground s2 then Inr (emit [Redraw, PlayPremove] s2) else Inl TypeError)"
  using assms tree_addNode_Some [OF assms] by (simp add: addNode_unfold)

lemma addNode_result:
  assumes "fst (tree_addNode nd p (tree s)) = Some np" and "addNode nd p s = Inr s'"
  shows "path s' = np \<and> tree s' = snd (tree_addNode nd p (tree s))
         \<and> (\<exists>es. events s' = events s @ es @ [Redraw, PlayPremove])"
proof -
  obtain s2 where j: "jump np (s\<lparr>tree := snd (tree_addNode nd p (tree s))\<rparr>) = Inr s2"
    and s': "s' = emit [Redraw, PlayPremove] s2"
    using assms(2) unfolding addNode_success [OF assms(1)]
    by (auto simp: and_then_def split: sum.splits if_splits)
  show ?thesis using jump_frame [OF j] s' by (auto simp: emit_def)
qed

lemma addNode_returns:
  assumes "fst (tree_addNode nd p (tree s)) = Some np"
    and "chessground s" and "moves_ok (tree s)" and "san_ok (data nd)"
  shows "\<exists>s'. addNode nd p s = Inr s'"
proof -
  obtain parent where par: "nodeAtPath p (tree s) = Some parent"
    using tree_addNode_Some [OF assms(1)] by blast
  obtain m where m: "nodeAtPath np (snd (tree_addNode nd p (tree s))) = Some m"
    and sm: "san_ok (data m)"
    using nodeAtPath_added [OF par assms(3) assms(4)] tree_addNode_Some [OF assms(1)] by auto
  obtain s2 where j: "jump np (s\<lparr>tree := snd (tree_addNode nd p (tree s))\<rparr>) = Inr s2"
    using jump_ok [of np "s\<lparr>tree := snd (tree_addNode nd p (tree s))\<rparr>" m] m sm by auto
  have "chessground s2" using jump_frame [OF j] assms(2) by simp
  then show ?thesis
    unfolding addNode_success [OF assms(1)] using j by (simp add: and_then_def)
qed

text \<open>
  Claim C7. When \<open>tree.addNode\<close> returns the sentinel, \<open>addNode\<close> of the controller logs
  the diagnostic and redraws, and nothing else: the tree and the cursor are as before.
  When \<open>tree.addNode\<close> returns a path, \<open>addNode\<close> is the jump to that path on the new
  tree, followed by a redraw and \<open>playPremove\<close>; if it returns, the cursor is on that
  path; and it returns when a board is attached and every move of the tree and of the
  new node has its notation.
\<close>

theorem addNode_sentinel:
  "(fst (tree_addNode nd p (tree s)) = None \<longrightarrow>
      addNode nd p s = Inr (emit [ConsoleLog ''Cannot addNode'', Redraw] s)
      \<and> snd (tree_addNode nd p (tree s)) = tree s)
   \<and> (fst (tree_addNode nd p (tree s)) = Some np \<longrightarrow>
        addNode nd p s =
          and_then (jump np (s\<lparr>tree := snd (tree_addNode nd p (tree s))\<rparr>))
            (\<lambda>s2. if chessground s2 then Inr (emit [Redraw, PlayPremove] s2) else Inl TypeError)
        \<and> (\<forall>s'. addNode nd p s = Inr s' \<longrightarrow>
              path s' = np \<and> tree s' = snd (tree_addNode nd p (tree s))
              \<and> (\<exists>es. events s' = events s @ es @ [Redraw, PlayPremove]))
        \<and> (chessground s \<and> moves_ok (tree s) \<and> san_ok (data nd) \<longrightarrow>
              (\<exists>s'. addNode nd p s = Inr s')))"
proof -
  have "addNode nd p s = Inr (emit [ConsoleLog ''Cannot addNode'', Redraw] s)
        \<and> snd (tree_addNode nd p (tree s)) = tree s"
    if "fst (tree_addNode nd p (tree s)) = None"
    using that tree_addNode_None [OF that] by (simp add: addNode_unfold)
  then show ?thesis
    using addNode_success [of nd p s np] addNode_result [of nd p s np]
          addNode_returns [of nd p s np]
    by blast
qed

theorem addNode_sentinel_witness:
  "fst (tree_addNode ex_mated [''c4''] (tree ex_ctrl)) = None
   \<and> addNode ex_mated [''c4''] ex_ctrl = Inr (emit [ConsoleLog ''Cannot addNode'', Redraw] ex_ctrl)
   \<and> fst (tree_addNode ex_mated [''e4'', ''e5''] (tree ex_ctrl)) = Some [''e4'', ''e5'', ''f7'']
   \<and> chessground ex_ctrl \<and> moves_ok (tree ex_ctrl) \<and> san_ok (data ex_mated)
   \<and> (\<exists>s'. addNode ex_mated [''e4'', ''e5''] ex_ctrl = Inr s' \<and> path s' = [''e4'', ''e5'', ''f7''])"
proof -
  have a: "fst (tree_addNode ex_mated [''c4''] (tree ex_ctrl)) = None"
    by (simp add: tree_addNode_def childById_def ex_defs)
  have b: "fst (tree_addNode ex_mated [''e4'', ''e5''] (tree ex_ctrl)) = Some [''e4'', ''e5'', ''f7'']"
    by (simp add: tree_addNode_def childById_def ex_defs)
  have c: "chessground ex_ctrl \<and> moves_ok (tree ex_ctrl) \<and> san_ok (data ex_mated)"
    by (simp add: san_ok_def ex_defs)
  note fail = addNode_sentinel [of ex_mated "[''c4'']" ex_ctrl "[]", THEN conjunct1, THEN mp, OF a]
  note ok = addNode_sentinel [of ex_mated "[''e4'', ''e5'']" ex_ctrl "[''e4'', ''e5'', ''f7'']",
                              THEN conjunct2, THEN mp, OF b]
  obtain s' where s': "addNode ex_mated [''e4'', ''e5''] ex_ctrl = Inr s'"
    using ok [THEN conjunct2, THEN conjunct2, THEN mp, OF c] by blast
  have "path s' = [''e4'', ''e5'', ''f7'']"
    using ok [THEN conjunct2, THEN conjunct1, THEN spec, THEN mp, OF s'] by simp
  then show ?thesis
    using fail [THEN conjunct1] a b c s' by simp
qed

subsection \<open>Deleting a node\<close>

lemma deleteNode_proceed:
  assumes "nodeAtPath p (tree s) = Some n" and "needs_confirm n \<longrightarrow> answer"
  shows "deleteNode p answer s =
           and_then
             (if prefix p (path s)
              then userJump (butlast p)
                     ((if needs_confirm n then emit [Confirm] s else s)
                        \<lparr>tree := deleteNodeAt p (tree s)\<rparr>)
              else jump (path s)
                     ((if needs_confirm n then emit [Confirm] s else s)
                        \<lparr>tree := deleteNodeAt p (tree s)\<rparr>))
             (\<lambda>s3. Inr (if study s3 then emit [StudyDeleteNode p] s3 else s3))"
  using assms
  by (auto simp: deleteNode_def path_contains_def path_init_def emit_def Let_def)

lemma needs_confirm_iff: "needs_confirm n \<longleftrightarrow> 10 \<le> count_nodes n \<or> 0 < count_comments n"
  by (simp add: needs_confirm_def countChildrenAndComments_def)

lemma deleteNode_result:
  assumes n: "nodeAtPath p (tree s) = Some n"
    and a: "needs_confirm n \<longrightarrow> answer"
    and r: "deleteNode p answer s = Inr s'"
  shows "tree s' = deleteNodeAt p (tree s)
         \<and> (p \<noteq> [] \<longrightarrow> nodeAtPath p (tree s') = None)
         \<and> path s' = (if prefix p (path s) then butlast p else path s)"
proof -
  define s2 where "s2 = (if needs_confirm n then emit [Confirm] s else s)
                          \<lparr>tree := deleteNodeAt p (tree s)\<rparr>"
  have s2: "tree s2 = deleteNodeAt p (tree s) \<and> path s2 = path s"
    by (simp add: s2_def emit_def)
  have eq: "deleteNode p answer s =
           and_then (if prefix p (path s) then userJump (butlast p) s2 else jump (path s) s2)
             (\<lambda>s3. Inr (if study s3 then emit [StudyDeleteNode p] s3 else s3))"
    using deleteNode_proceed [OF n a] by (simp add: s2_def)
  obtain s3 where
    j: "(if prefix p (path s) then userJump (butlast p) s2 else jump (path s) s2) = Inr s3"
    and s': "s' = (if study s3 then emit [StudyDeleteNode p] s3 else s3)"
    using r unfolding eq by (auto simp: and_then_def split: sum.splits)
  have fr: "tree s3 = tree s2 \<and> path s3 = (if prefix p (path s) then butlast p else path s)"
    using j userJump_frame [of "butlast p" s2 s3] jump_frame [of "path s" s2 s3]
    by (auto split: if_splits)
  have t: "tree s' = deleteNodeAt p (tree s)"
    using fr s2 s' by (simp add: emit_def)
  have "path s' = (if prefix p (path s) then butlast p else path s)"
    using fr s' by (simp add: emit_def)
  then show ?thesis using t by (simp add: deleteNodeAt_same)
qed

lemma deleteNode_returns:
  assumes n: "nodeAtPath p (tree s) = Some n"
    and a: "needs_confirm n \<longrightarrow> answer"
    and c: "cur_node s \<noteq> None" and w: "moves_ok (tree s)"
  shows "\<exists>s'. deleteNode p answer s = Inr s'"
proof -
  define s2 where "s2 = (if needs_confirm n then emit [Confirm] s else s)
                          \<lparr>tree := deleteNodeAt p (tree s)\<rparr>"
  have s2: "tree s2 = deleteNodeAt p (tree s) \<and> path s2 = path s"
    by (simp add: s2_def emit_def)
  have eq: "deleteNode p answer s =
           and_then (if prefix p (path s) then userJump (butlast p) s2 else jump (path s) s2)
             (\<lambda>s3. Inr (if study s3 then emit [StudyDeleteNode p] s3 else s3))"
    using deleteNode_proceed [OF n a] by (simp add: s2_def)
  have "\<exists>s3. (if prefix p (path s) then userJump (butlast p) s2 else jump (path s) s2) = Inr s3"
  proof (cases "prefix p (path s)")
    case True
    obtain m where m: "nodeAtPath (butlast p) (tree s) = Some m"
      using nodeAtPath_butlast [OF n] by blast
    have "\<exists>m'. nodeAtPath (butlast p) (tree s2) = Some m' \<and> data m' = data m"
    proof (cases "p = []")
      case True
      then show ?thesis using m s2 by (simp add: deleteNodeAt_def)
    next
      case False
      then have "length (butlast p) < length p" by simp
      then have "\<not> prefix p (butlast p)" using prefix_length_le [of p "butlast p"] by auto
      from deleteNodeAt_other [OF this m] show ?thesis using s2 by simp
    qed
    then obtain m' where m': "nodeAtPath (butlast p) (tree s2) = Some m'"
      and d: "data m' = data m" by blast
    have "san_ok (data m)" using moves_ok_data [OF moves_ok_nodeAtPath [OF w m]] .
    then have "san_ok (data m')" using d by simp
    then show ?thesis using userJump_ok [OF m'] True by simp
  next
    case False
    obtain cn where cn: "nodeAtPath (path s) (tree s) = Some cn"
      using c by (auto simp: cur_node_eq)
    obtain c' where "nodeAtPath (path s2) (tree s2) = Some c'"
      using deleteNodeAt_other [OF False cn] s2 by auto
    then show ?thesis using jump_ok [of "path s2" s2 c'] False s2 by simp
  qed
  then show ?thesis
    unfolding eq by (auto simp: and_then_def)
qed

text \<open>
  Claim C5, as amended. \<open>deleteNode(p)\<close> does nothing when no node exists at \<open>p\<close>. When
  the subtree at \<open>p\<close> has ten or more nodes or a comment, the user is asked, and a refusal
  leaves tree and cursor as they were; with fewer nodes and no comment the user is not
  asked. When the deletion goes ahead, \<open>tree.deleteNodeAt(p)\<close> is applied, after which
  no node exists at \<open>p\<close> unless \<open>p\<close> is the root; the cursor jumps to the parent path of
  \<open>p\<close> if the current path lies at or below \<open>p\<close>, and stays on the current path
  otherwise. The call returns when the cursor resolves and every move of the tree has its
  notation.
\<close>

theorem deleteNode_cursor:
  "(nodeAtPath p (tree s) = None \<longrightarrow> deleteNode p answer s = Inr s)
   \<and> (nodeAtPath p (tree s) = Some n \<longrightarrow>
        ((10 \<le> count_nodes n \<or> 0 < count_comments n) \<and> \<not> answer \<longrightarrow>
           deleteNode p answer s = Inr (emit [Confirm] s))
        \<and> (\<not> (10 \<le> count_nodes n \<or> 0 < count_comments n) \<longrightarrow>
             deleteNode p answer s = deleteNode p True s)
        \<and> (((10 \<le> count_nodes n \<or> 0 < count_comments n) \<longrightarrow> answer) \<longrightarrow>
             (\<forall>s'. deleteNode p answer s = Inr s' \<longrightarrow>
                tree s' = deleteNodeAt p (tree s)
                \<and> (p \<noteq> [] \<longrightarrow> nodeAtPath p (tree s') = None)
                \<and> path s' = (if prefix p (path s) then butlast p else path s))
             \<and> (cur_node s \<noteq> None \<and> moves_ok (tree s) \<longrightarrow>
                  (\<exists>s'. deleteNode p answer s = Inr s'))))"
proof -
  have none: "deleteNode p answer s = Inr s" if "nodeAtPath p (tree s) = None"
    using that by (simp add: deleteNode_def)
  have declined: "deleteNode p answer s = Inr (emit [Confirm] s)"
    if "nodeAtPath p (tree s) = Some n" and "needs_confirm n" and "\<not> answer"
    using that by (simp add: deleteNode_def)
  have unasked: "deleteNode p answer s = deleteNode p True s"
    if "nodeAtPath p (tree s) = Some n" and "\<not> needs_confirm n"
    using that by (simp add: deleteNode_def)
  show ?thesis
    unfolding needs_confirm_iff [symmetric]
    using none declined unasked deleteNode_result [of p s n answer]
          deleteNode_returns [of p s n answer]
    by blast
qed

theorem deleteNode_cursor_witness:
  "nodeAtPath [''c4''] (tree ex_ctrl) = None \<and> deleteNode [''c4''] True ex_ctrl = Inr ex_ctrl
   \<and> nodeAtPath [''e4''] (tree ex_ctrl_c) = Some ex_e4c
   \<and> (10 \<le> count_nodes ex_e4c \<or> 0 < count_comments ex_e4c)
   \<and> deleteNode [''e4''] False ex_ctrl_c = Inr (emit [Confirm] ex_ctrl_c)
   \<and> cur_node ex_ctrl_c \<noteq> None \<and> moves_ok (tree ex_ctrl_c)
   \<and> (\<exists>s'. deleteNode [''e4''] True ex_ctrl_c = Inr s'
          \<and> tree s' = Node (data ex_root) [ex_d4] \<and> path s' = []
          \<and> nodeAtPath [''e4''] (tree s') = None)
   \<and> nodeAtPath [''d4''] (tree ex_ctrl) = Some ex_d4
   \<and> \<not> (10 \<le> count_nodes ex_d4 \<or> 0 < count_comments ex_d4)
   \<and> deleteNode [''d4''] False ex_ctrl = deleteNode [''d4''] True ex_ctrl"
proof -
  have a: "nodeAtPath [''c4''] (tree ex_ctrl) = None"
    by (simp add: childById_def ex_defs)
  have b: "nodeAtPath [''e4''] (tree ex_ctrl_c) = Some ex_e4c"
    by (simp add: childById_def ex_ctrl_c_def ex_e4c_def ex_defs)
  have c: "10 \<le> count_nodes ex_e4c \<or> 0 < count_comments ex_e4c"
    by (simp add: ex_e4c_def ex_defs)
  have d: "cur_node ex_ctrl_c \<noteq> None \<and> moves_ok (tree ex_ctrl_c)"
    by (simp add: cur_node_eq childById_def san_ok_def ex_ctrl_c_def ex_e4c_def ex_defs)
  have e: "nodeAtPath [''d4''] (tree ex_ctrl) = Some ex_d4"
    by (simp add: childById_def ex_defs)
  have f: "\<not> (10 \<le> count_nodes ex_d4 \<or> 0 < count_comments ex_d4)"
    by (simp add: ex_defs)
  have g: "deleteNodeAt [''e4''] (tree ex_ctrl_c) = Node (data ex_root) [ex_d4]
           \<and> prefix [''e4''] (path ex_ctrl_c)"
    by (simp add: deleteNodeAt_def removeChild_def ex_ctrl_c_def ex_e4c_def ex_defs)
  note T1 = deleteNode_cursor [of "[''c4'']" ex_ctrl True ex_root, THEN conjunct1, THEN mp, OF a]
  note T2 = deleteNode_cursor [of "[''e4'']" ex_ctrl_c False ex_e4c, THEN conjunct2, THEN mp, OF b]
  note T3 = deleteNode_cursor [of "[''e4'']" ex_ctrl_c True ex_e4c, THEN conjunct2, THEN mp, OF b]
  note T4 = deleteNode_cursor [of "[''d4'']" ex_ctrl False ex_d4, THEN conjunct2, THEN mp, OF e]
  have declined: "deleteNode [''e4''] False ex_ctrl_c = Inr (emit [Confirm] ex_ctrl_c)"
    using T2 [THEN conjunct1] c by simp
  note T3' = T3 [THEN conjunct2, THEN conjunct2, THEN mp]
  have confirmed: "(\<forall>s'. deleteNode [''e4''] True ex_ctrl_c = Inr s' \<longrightarrow>
                tree s' = deleteNodeAt [''e4''] (tree ex_ctrl_c)
                \<and> ([''e4''] \<noteq> [] \<longrightarrow> nodeAtPath [''e4''] (tree s') = None)
                \<and> path s' = (if prefix [''e4''] (path ex_ctrl_c) then butlast [''e4'']
                             else path ex_ctrl_c))
             \<and> (cur_node ex_ctrl_c \<noteq> None \<and> moves_ok (tree ex_ctrl_c) \<longrightarrow>
                  (\<exists>s'. deleteNode [''e4''] True ex_ctrl_c = Inr s'))"
    by (rule T3') simp
  obtain s' where s': "deleteNode [''e4''] True ex_ctrl_c = Inr s'"
    using confirmed [THEN conjunct2, THEN mp, OF d] by blast
  note r = confirmed [THEN conjunct1, THEN spec, THEN mp, OF s']
  have r1: "tree s' = Node (data ex_root) [ex_d4]"
    using r [THEN conjunct1] g by simp
  have r2: "path s' = []"
    using r [THEN conjunct2, THEN conjunct2] g by simp
  have r3: "nodeAtPath [''e4''] (tree s') = None"
    by (rule r [THEN conjunct2, THEN conjunct1, THEN mp]) simp
  have unasked: "deleteNode [''d4''] False ex_ctrl = deleteNode [''d4''] True ex_ctrl"
    using T4 [THEN conjunct2, THEN conjunct1] f by simp
  show ?thesis
    using T1 a b c d e f declined s' r1 r2 r3 unasked
    by (intro conjI exI [of _ s']) (simp_all only: simp_thms)
qed

lemmas step_defs =
  jump_def showGround_def showGround_events_def setPath_def cur_node_eq emit_def and_then_def
  jump_changed_def jump_notify_def move_sound_def check_sound_def userJump_def childById_def
  Let_def

text \<open>
  The claim as stated has the cursor jump to the parent path of \<open>p\<close> after every
  confirmed deletion, and the subtree at \<open>p\<close> removed. With the cursor on \<open>e4\<close>, deleting
  \<open>d4\<close> removes \<open>d4\<close> and leaves the cursor on \<open>e4\<close>, which is not the parent path of
  \<open>d4\<close>; and deleting the root leaves the whole tree in place.
\<close>

theorem deleteNode_elsewhere_counterexample:
  "nodeAtPath [''d4''] (tree ex_ctrl) = Some ex_d4
   \<and> map_sum id path (deleteNode [''d4''] True ex_ctrl) = Inr [''e4'']
   \<and> map_sum id tree (deleteNode [''d4''] True ex_ctrl) = Inr (Node (data ex_root) [ex_e4])
   \<and> path_init [''d4''] = []
   \<and> nodeAtPath [] (tree ex_ctrl) = Some ex_root
   \<and> map_sum id tree (deleteNode [] True ex_ctrl) = Inr ex_root"
  by (simp add: deleteNode_def needs_confirm_def countChildrenAndComments_def deleteNodeAt_def
        removeChild_def path_contains_def path_init_def step_defs ex_defs)

end
